theory Spec2Isabelle
  imports Main
begin

section \<open>Exceptions\<close>

text \<open>
  The exceptions that the program and the library calls it makes can raise.  A function
  that can raise returns \<open>error + 'a\<close>, with \<open>Inl\<close> for the exception.
\<close>

datatype error = ValueError string | IndexError | KeyError | OverflowError string

section \<open>Strings\<close>

text \<open>
  The names, the phone numbers and the messages are modelled as \<open>string\<close>, one \<open>char\<close> for
  each code point below 256.  On these code points \<open>str.isdigit\<close> holds for \<open>0\<close>..\<open>9\<close> and
  for the superscript digits U+00B2, U+00B3 and U+00B9.
\<close>

definition char_between :: "char \<Rightarrow> char \<Rightarrow> char \<Rightarrow> bool" where
  "char_between lo hi c \<longleftrightarrow>
     (of_char lo :: nat) \<le> of_char c \<and> (of_char c :: nat) \<le> of_char hi"

definition isdigit_char :: "char \<Rightarrow> bool" where
  "isdigit_char c \<longleftrightarrow>
     char_between (CHR ''0'') (CHR ''9'') c \<or> c = CHR 0xB2 \<or> c = CHR 0xB3 \<or> c = CHR 0xB9"

definition str_isdigit :: "string \<Rightarrow> bool" where
  "str_isdigit s \<longleftrightarrow> s \<noteq> [] \<and> list_all isdigit_char s"

fun str_nat :: "nat \<Rightarrow> string" where
  "str_nat n =
     (if n < 10 then [char_of (48 + n)] else str_nat (n div 10) @ [char_of (48 + n mod 10)])"

definition str_int :: "int \<Rightarrow> string" where
  "str_int i = (if i < 0 then CHR ''-'' # str_nat (nat (- i)) else str_nat (nat i))"

subsection \<open>Texts of any code points\<close>

text \<open>
  The text that \<open>Birthday\<close> parses is modelled as the list of its code points, from 0 to
  0x10FFFF, because the parser accepts digits beyond code point 255.
\<close>

type_synonym codepoints = "nat list"

text \<open>\<open>ord(c)\<close> for the characters that the program and the library name.\<close>

definition code_point :: "char \<Rightarrow> nat" where
  "code_point c = of_char c"

definition cp_between :: "char \<Rightarrow> char \<Rightarrow> nat \<Rightarrow> bool" where
  "cp_between lo hi c \<longleftrightarrow> code_point lo \<le> c \<and> c \<le> code_point hi"

text \<open>
  The decimal digits of Unicode (the characters of category Nd, here of Unicode 14.0)
  come in runs of ten, from the digit zero of a script to its digit nine.  These are the
  code points of the zeros.
\<close>

definition DECIMAL_ZEROS :: "nat list" where
  "DECIMAL_ZEROS =
     [0x30, 0x660, 0x6F0, 0x7C0, 0x966, 0x9E6, 0xA66, 0xAE6, 0xB66, 0xBE6, 0xC66, 0xCE6,
      0xD66, 0xDE6, 0xE50, 0xED0, 0xF20, 0x1040, 0x1090, 0x17E0, 0x1810, 0x1946, 0x19D0,
      0x1A80, 0x1A90, 0x1B50, 0x1BB0, 0x1C40, 0x1C50, 0xA620, 0xA8D0, 0xA900, 0xA9D0,
      0xA9F0, 0xAA50, 0xABF0, 0xFF10, 0x104A0, 0x10D30, 0x11066, 0x110F0, 0x11136,
      0x111D0, 0x112F0, 0x11450, 0x114D0, 0x11650, 0x116C0, 0x11730, 0x118E0, 0x11950,
      0x11C50, 0x11D50, 0x11DA0, 0x16A60, 0x16AC0, 0x16B50, 0x1D7CE, 0x1D7D8, 0x1D7E2,
      0x1D7EC, 0x1D7F6, 0x1E140, 0x1E2F0, 0x1E950, 0x1FBF0]"

text \<open>The value of a decimal digit, and \<open>None\<close> for any other code point.\<close>

definition unicode_decimal :: "nat \<Rightarrow> nat option" where
  "unicode_decimal c =
     map_option (\<lambda>z. c - z) (List.find (\<lambda>z. z \<le> c \<and> c < z + 10) DECIMAL_ZEROS)"

text \<open>
  The class \<open>\d\<close> of the \<open>re\<close> module on a \<open>str\<close> matches the decimal digits of Unicode, and
  \<open>int\<close> converts them; the ranges such as \<open>[0-9]\<close> match the ASCII digits only.
\<close>

definition re_digit :: "nat \<Rightarrow> bool" where
  "re_digit c \<longleftrightarrow> unicode_decimal c \<noteq> None"

definition digit_val :: "nat \<Rightarrow> int" where
  "digit_val c = (case unicode_decimal c of Some v \<Rightarrow> int v | None \<Rightarrow> 0)"

text \<open>\<open>int(s)\<close> for a text of decimal digits after optional leading blanks.\<close>

definition int_of_str :: "codepoints \<Rightarrow> int" where
  "int_of_str s =
     foldl (\<lambda>acc c. 10 * acc + digit_val c) 0 (dropWhile (\<lambda>c. c = code_point (CHR '' '')) s)"

section \<open>Dates: \<open>datetime.date\<close>\<close>

record date =
  year :: int
  month :: int
  day :: int

definition MINYEAR :: int where "MINYEAR = 1"
definition MAXYEAR :: int where "MAXYEAR = 9999"

text \<open>\<open>date.max.toordinal()\<close>, the ordinal of 31 December 9999.\<close>

definition MAXORDINAL :: int where "MAXORDINAL = 3652059"

definition is_leap :: "int \<Rightarrow> bool" where
  "is_leap y \<longleftrightarrow> y mod 4 = 0 \<and> (y mod 100 \<noteq> 0 \<or> y mod 400 = 0)"

definition days_in_month :: "int \<Rightarrow> int \<Rightarrow> int" where
  "days_in_month y m =
     (if m = 2 \<and> is_leap y then 29
      else if m = 2 then 28
      else if m = 4 \<or> m = 6 \<or> m = 9 \<or> m = 11 then 30
      else 31)"

definition days_before_year :: "int \<Rightarrow> int" where
  "days_before_year y =
     (let y1 = y - 1 in y1 * 365 + y1 div 4 - y1 div 100 + y1 div 400)"

definition DAYS_BEFORE_MONTH :: "int \<Rightarrow> int" where
  "DAYS_BEFORE_MONTH m =
     (if m = 1 then 0 else if m = 2 then 31 else if m = 3 then 59
      else if m = 4 then 90 else if m = 5 then 120 else if m = 6 then 151
      else if m = 7 then 181 else if m = 8 then 212 else if m = 9 then 243
      else if m = 10 then 273 else if m = 11 then 304 else 334)"

definition days_before_month :: "int \<Rightarrow> int \<Rightarrow> int" where
  "days_before_month y m =
     DAYS_BEFORE_MONTH m + (if m > 2 \<and> is_leap y then 1 else 0)"

text \<open>The proleptic Gregorian ordinal: 1 January of year 1 is day 1.\<close>

definition toordinal :: "date \<Rightarrow> int" where
  "toordinal d = days_before_year (year d) + days_before_month (year d) (month d) + day d"

text \<open>The values that the type \<open>date\<close> of the library holds.\<close>

definition valid_date :: "date \<Rightarrow> bool" where
  "valid_date d \<longleftrightarrow>
     MINYEAR \<le> year d \<and> year d \<le> MAXYEAR \<and> 1 \<le> month d \<and> month d \<le> 12 \<and>
     1 \<le> day d \<and> day d \<le> days_in_month (year d) (month d)"

text \<open>The constructor \<open>date(y, m, d)\<close> with its range checks, in the library's order.\<close>

definition make_date :: "int \<Rightarrow> int \<Rightarrow> int \<Rightarrow> error + date" where
  "make_date y m d =
     (if \<not> (MINYEAR \<le> y \<and> y \<le> MAXYEAR)
        then Inl (ValueError (''year '' @ str_int y @ '' is out of range''))
      else if \<not> (1 \<le> m \<and> m \<le> 12) then Inl (ValueError ''month must be in 1..12'')
      else if \<not> (1 \<le> d \<and> d \<le> days_in_month y m)
        then Inl (ValueError ''day is out of range for month'')
      else Inr \<lparr>year = y, month = m, day = d\<rparr>)"

text \<open>\<open>d.replace(year=y)\<close> builds a new date from the changed fields.\<close>

definition replace_year :: "date \<Rightarrow> int \<Rightarrow> error + date" where
  "replace_year d y = make_date y (month d) (day d)"

text \<open>\<open>d.weekday()\<close>: Monday is 0, Sunday is 6.\<close>

definition weekday :: "date \<Rightarrow> int" where
  "weekday d = (toordinal d + 6) mod 7"

text \<open>\<open>a < b\<close> on dates compares year, month and day in this order.\<close>

definition date_less :: "date \<Rightarrow> date \<Rightarrow> bool" where
  "date_less a b \<longleftrightarrow>
     year a < year b \<or> (year a = year b \<and>
       (month a < month b \<or> (month a = month b \<and> day a < day b)))"

definition next_day :: "date \<Rightarrow> date" where
  "next_day d =
     (if day d < days_in_month (year d) (month d) then d\<lparr>day := day d + 1\<rparr>
      else if month d < 12 then d\<lparr>month := month d + 1, day := 1\<rparr>
      else \<lparr>year = year d + 1, month = 1, day = 1\<rparr>)"

definition prev_day :: "date \<Rightarrow> date" where
  "prev_day d =
     (if 1 < day d then d\<lparr>day := day d - 1\<rparr>
      else if 1 < month d
        then d\<lparr>month := month d - 1, day := days_in_month (year d) (month d - 1)\<rparr>
      else \<lparr>year = year d - 1, month = 12, day = 31\<rparr>)"

primrec forward :: "nat \<Rightarrow> date \<Rightarrow> date" where
  "forward 0 d = d"
| "forward (Suc n) d = forward n (next_day d)"

primrec backward :: "nat \<Rightarrow> date \<Rightarrow> date" where
  "backward 0 d = d"
| "backward (Suc n) d = backward n (prev_day d)"

text \<open>
  \<open>d + timedelta(days=k)\<close>: the date whose ordinal is \<open>toordinal d + k\<close>, reached here one
  calendar day at a time, and \<open>OverflowError\<close> when that ordinal is outside
  \<open>date.min\<close>..\<open>date.max\<close>.
\<close>

definition date_add :: "date \<Rightarrow> int \<Rightarrow> error + date" where
  "date_add d k =
     (let ord = toordinal d + k in
      if 0 < ord \<and> ord \<le> MAXORDINAL
      then Inr (if 0 \<le> k then forward (nat k) d else backward (nat (- k)) d)
      else Inl (OverflowError ''date value out of range''))"

text \<open>\<open>(a - b).days\<close>\<close>

definition date_sub :: "date \<Rightarrow> date \<Rightarrow> int" where
  "date_sub a b = toordinal a - toordinal b"

subsection \<open>\<open>datetime.strptime(s, "%d.%m.%Y")\<close>\<close>

text \<open>
  The library turns the format into the regular expression
  \<open>(?P<d>3[0-1]|[1-2]\d|0[1-9]|[1-9]| [1-9])\.(?P<m>1[0-2]|0[1-9]|[1-9])\.(?P<Y>\d\d\d\d)\<close>,
  matches it at the start of the string, and fails if text remains after the match.
  The expression ignores case, which changes nothing for digits, blanks and dots.
  Each matcher below returns the ways its group can match, in the order in which the
  backtracking matcher tries them, each with the matched text and the rest.
\<close>

definition lit1 :: "(nat \<Rightarrow> bool) \<Rightarrow> codepoints \<Rightarrow> (codepoints \<times> codepoints) list" where
  "lit1 p s = (case s of a # r \<Rightarrow> if p a then [([a], r)] else [] | _ \<Rightarrow> [])"

definition lit2 ::
  "(nat \<Rightarrow> bool) \<Rightarrow> (nat \<Rightarrow> bool) \<Rightarrow> codepoints \<Rightarrow> (codepoints \<times> codepoints) list" where
  "lit2 p q s = (case s of a # b # r \<Rightarrow> if p a \<and> q b then [([a, b], r)] else [] | _ \<Rightarrow> [])"

definition match_d :: "codepoints \<Rightarrow> (codepoints \<times> codepoints) list" where
  "match_d s =
     lit2 (\<lambda>c. c = code_point (CHR ''3'')) (cp_between (CHR ''0'') (CHR ''1'')) s @
     lit2 (cp_between (CHR ''1'') (CHR ''2'')) re_digit s @
     lit2 (\<lambda>c. c = code_point (CHR ''0'')) (cp_between (CHR ''1'') (CHR ''9'')) s @
     lit1 (cp_between (CHR ''1'') (CHR ''9'')) s @
     lit2 (\<lambda>c. c = code_point (CHR '' '')) (cp_between (CHR ''1'') (CHR ''9'')) s"

definition match_m :: "codepoints \<Rightarrow> (codepoints \<times> codepoints) list" where
  "match_m s =
     lit2 (\<lambda>c. c = code_point (CHR ''1'')) (cp_between (CHR ''0'') (CHR ''2'')) s @
     lit2 (\<lambda>c. c = code_point (CHR ''0'')) (cp_between (CHR ''1'') (CHR ''9'')) s @
     lit1 (cp_between (CHR ''1'') (CHR ''9'')) s"

definition match_Y :: "codepoints \<Rightarrow> (codepoints \<times> codepoints) list" where
  "match_Y s =
     (case s of a # b # c # d # r \<Rightarrow>
        if re_digit a \<and> re_digit b \<and> re_digit c \<and> re_digit d then [([a, b, c, d], r)] else []
      | _ \<Rightarrow> [])"

definition match_dot :: "codepoints \<Rightarrow> codepoints list" where
  "match_dot s = (case s of c # r \<Rightarrow> if c = code_point (CHR ''.'') then [r] else [] | _ \<Rightarrow> [])"

text \<open>The first match of the whole expression: the groups d, m, Y and the unmatched rest.\<close>

definition re_match_dmY ::
  "codepoints \<Rightarrow> (codepoints \<times> codepoints \<times> codepoints \<times> codepoints) option" where
  "re_match_dmY s =
     (case concat (map (\<lambda>(d, r1). concat (map (\<lambda>r2. concat (map (\<lambda>(m, r3).
             concat (map (\<lambda>r4. map (\<lambda>(y, r5). (d, m, y, r5)) (match_Y r4)) (match_dot r3)))
             (match_m r2))) (match_dot r1))) (match_d s))
      of [] \<Rightarrow> None | x # _ \<Rightarrow> Some x)"

text \<open>
  The messages of the two parse failures quote the input with \<open>repr\<close>; the only caller
  replaces the message, so they are shortened here.
\<close>

definition strptime_dmY :: "codepoints \<Rightarrow> error + date" where
  "strptime_dmY s =
     (case re_match_dmY s of
        None \<Rightarrow> Inl (ValueError ''time data does not match format'')
      | Some (d, m, y, rest) \<Rightarrow>
          if rest \<noteq> [] then Inl (ValueError ''unconverted data remains'')
          else make_date (int_of_str y) (int_of_str m) (int_of_str d))"

section \<open>Fields\<close>

text \<open>Class \<open>Field\<close>: a holder of one value, rendered as \<open>str(self.value)\<close>.\<close>

datatype 'a Field = Field (field_value: 'a)

definition Field_str :: "string Field \<Rightarrow> string" where
  "Field_str f = field_value f"

definition Name :: "string \<Rightarrow> string Field" where
  "Name nm = Field nm"

definition Birthday :: "codepoints \<Rightarrow> error + date Field" where
  "Birthday birthday_date_s =
     (case (if length birthday_date_s \<noteq> 10
            then Inl (ValueError ''Invalid date format. Use DD.MM.YYYY'')
            else strptime_dmY birthday_date_s) of
        Inl (ValueError _) \<Rightarrow> Inl (ValueError ''Invalid date format. Use DD.MM.YYYY'')
      | Inl e \<Rightarrow> Inl e
      | Inr birthday_date_t \<Rightarrow> Inr (Field birthday_date_t))"

definition Phone :: "string \<Rightarrow> error + string Field" where
  "Phone phone =
     (if \<not> str_isdigit phone \<or> length phone \<noteq> 10
      then Inl (ValueError ''Phone number must be 10 digits long!'')
      else Inr (Field phone))"

section \<open>Records\<close>

record Record =
  name :: "string Field"
  phones :: "string Field list"
  birthday :: "date Field option"

definition Record_init :: "string \<Rightarrow> Record" where
  "Record_init nm = \<lparr>name = Name nm, phones = [], birthday = None\<rparr>"

text \<open>
  A method that changes its record returns what it raised or returned together with the
  record as the call leaves it, also when it raises.
\<close>

definition add_birthday :: "Record \<Rightarrow> codepoints \<Rightarrow> (error + unit) \<times> Record" where
  "add_birthday r birthday_date_s =
     (case Birthday birthday_date_s of
        Inl e \<Rightarrow> (Inl e, r)
      | Inr b \<Rightarrow> (Inr (), r\<lparr>birthday := Some b\<rparr>))"

definition add_phone :: "Record \<Rightarrow> string \<Rightarrow> (error + unit) \<times> Record" where
  "add_phone r phone =
     (case Phone phone of
        Inl e \<Rightarrow> (Inl e, r)
      | Inr ph \<Rightarrow> (Inr (), r\<lparr>phones := phones r @ [ph]\<rparr>))"

definition find_phone :: "Record \<Rightarrow> string \<Rightarrow> string Field option" where
  "find_phone r phone = List.find (\<lambda>ph. field_value ph = phone) (phones r)"

text \<open>
  \<open>list.remove(x)\<close> deletes the first element equal to \<open>x\<close> and raises when there is none.
  Phone objects compare by identity; every phone of a list is an object of its own, and
  the object that \<open>find_phone\<close> returns is the first one holding the value, which is the
  element that \<open>remove1\<close> deletes.
\<close>

definition list_remove :: "'a \<Rightarrow> 'a list \<Rightarrow> error + 'a list" where
  "list_remove x xs =
     (if x \<in> set xs then Inr (remove1 x xs)
      else Inl (ValueError ''list.remove(x): x not in list''))"

definition remove_phone :: "Record \<Rightarrow> string \<Rightarrow> (error + unit) \<times> Record" where
  "remove_phone r phone =
     (case find_phone r phone of
        None \<Rightarrow> (Inr (), r)
      | Some phone_to_remove \<Rightarrow>
          (case list_remove phone_to_remove (phones r) of
             Inl e \<Rightarrow> (Inl e, r)
           | Inr ps \<Rightarrow> (Inr (), r\<lparr>phones := ps\<rparr>)))"

definition edit_phone :: "Record \<Rightarrow> string \<Rightarrow> string \<Rightarrow> (error + unit) \<times> Record" where
  "edit_phone r old_phone new_phone =
     (case find_phone r old_phone of
        Some phone_to_edit \<Rightarrow>
          (case remove_phone r old_phone of
             (Inl e, r1) \<Rightarrow> (Inl e, r1)
           | (Inr _, r1) \<Rightarrow> add_phone r1 new_phone)
      | None \<Rightarrow> (Inl (ValueError ''Phone number is incorrect''), r))"

section \<open>The address book\<close>

text \<open>
  \<open>AddressBook.data\<close> is a dictionary from names to records, kept as the list of its
  items in iteration order: assigning to a new key appends an item, assigning to a key
  that is present replaces the value where it stands.
\<close>

type_synonym AddressBook = "(string \<times> Record) list"

fun dict_set :: "'k \<Rightarrow> 'v \<Rightarrow> ('k \<times> 'v) list \<Rightarrow> ('k \<times> 'v) list" where
  "dict_set k v [] = [(k, v)]"
| "dict_set k v ((k', v') # kvs) =
     (if k' = k then (k', v) # kvs else (k', v') # dict_set k v kvs)"

definition dict_del :: "'k \<Rightarrow> ('k \<times> 'v) list \<Rightarrow> ('k \<times> 'v) list" where
  "dict_del k kvs = filter (\<lambda>kv. fst kv \<noteq> k) kvs"

definition add_record :: "AddressBook \<Rightarrow> Record \<Rightarrow> AddressBook" where
  "add_record book record = dict_set (field_value (name record)) record book"

definition find_next_weekday :: "date \<Rightarrow> int \<Rightarrow> error + date" where
  "find_next_weekday start_date wd =
     (let days_ahead = wd - weekday start_date;
          days_ahead = (if days_ahead \<le> 0 then days_ahead + 7 else days_ahead)
      in date_add start_date days_ahead)"

definition adjust_for_weekend :: "date \<Rightarrow> error + date" where
  "adjust_for_weekend bd =
     (if weekday bd \<ge> 5 then find_next_weekday bd 0 else Inr bd)"

text \<open>
  One pass of the loop of \<open>get_upcoming_birthdays\<close> over a record, with the list collected
  so far; \<open>today\<close> is what \<open>datetime.now().date()\<close> returned.
\<close>

definition upcoming_step :: "date \<Rightarrow> int \<Rightarrow> Record \<Rightarrow> date list \<Rightarrow> error + date list" where
  "upcoming_step today days record upcoming_birthdays =
     (case birthday record of
        None \<Rightarrow> Inr upcoming_birthdays
      | Some b \<Rightarrow>
          (case replace_year (field_value b) (year today) of
             Inl e \<Rightarrow> Inl e
           | Inr birthday_this_year \<Rightarrow>
               (case (if date_less birthday_this_year today
                      then replace_year birthday_this_year (year today + 1)
                      else Inr birthday_this_year) of
                  Inl e \<Rightarrow> Inl e
                | Inr birthday_this_year \<Rightarrow>
                    if 0 \<le> date_sub birthday_this_year today
                       \<and> date_sub birthday_this_year today \<le> days
                    then (case adjust_for_weekend birthday_this_year of
                            Inl e \<Rightarrow> Inl e
                          | Inr adjusted \<Rightarrow> Inr (upcoming_birthdays @ [adjusted]))
                    else Inr upcoming_birthdays)))"

fun upcoming_loop :: "date \<Rightarrow> int \<Rightarrow> Record list \<Rightarrow> date list \<Rightarrow> error + date list" where
  "upcoming_loop today days [] upcoming_birthdays = Inr upcoming_birthdays"
| "upcoming_loop today days (record # records) upcoming_birthdays =
     (case upcoming_step today days record upcoming_birthdays of
        Inl e \<Rightarrow> Inl e
      | Inr upcoming_birthdays' \<Rightarrow> upcoming_loop today days records upcoming_birthdays')"

definition get_upcoming_birthdays :: "AddressBook \<Rightarrow> date \<Rightarrow> int \<Rightarrow> error + date list" where
  "get_upcoming_birthdays book today days = upcoming_loop today days (map snd book) []"

definition find :: "AddressBook \<Rightarrow> string \<Rightarrow> Record option" where
  "find book nm = map_of book nm"

definition delete :: "AddressBook \<Rightarrow> string \<Rightarrow> AddressBook" where
  "delete book nm = (if nm \<in> fst ` set book then dict_del nm book else book)"

section \<open>Command handlers\<close>

text \<open>
  The decorator \<open>input_error\<close>: what the wrapped call raised or returned becomes the
  returned string; an exception of another class passes through.
\<close>

definition input_error :: "error + string \<Rightarrow> error + string" where
  "input_error res =
     (case res of
        Inr s \<Rightarrow> Inr s
      | Inl (ValueError msg) \<Rightarrow> Inr msg
      | Inl IndexError \<Rightarrow> Inr ''Give me phone and name please''
      | Inl KeyError \<Rightarrow> Inr ''Enter user name''
      | Inl e \<Rightarrow> Inl e)"

text \<open>
  A record found in the book is the object the book holds: changing it changes the book.
  \<open>write_back\<close> puts the changed record where the book keeps it.
\<close>

definition write_back :: "AddressBook \<Rightarrow> string \<Rightarrow> Record \<Rightarrow> AddressBook" where
  "write_back book nm r = map (\<lambda>kv. if fst kv = nm then (fst kv, r) else kv) book"

text \<open>
  The body of \<open>add_contact\<close>.  Unpacking \<open>name, phone, *_ = args\<close> raises \<open>ValueError\<close>
  when \<open>args\<close> has fewer than two items.
\<close>

definition add_contact_body :: "string list \<Rightarrow> AddressBook \<Rightarrow> (error + string) \<times> AddressBook" where
  "add_contact_body args book =
     (case args of
        nm # phone # _ \<Rightarrow>
          (let (record, book1, message) =
                 (case find book nm of
                    None \<Rightarrow> (Record_init nm, add_record book (Record_init nm), ''Contact added.'')
                  | Some r \<Rightarrow> (r, book, ''Contact updated.''))
           in if phone \<noteq> []
              then (case add_phone record phone of
                      (Inl e, record') \<Rightarrow> (Inl e, write_back book1 nm record')
                    | (Inr _, record') \<Rightarrow> (Inr message, write_back book1 nm record'))
              else (Inr message, book1))
      | _ \<Rightarrow>
          (Inl (ValueError (''not enough values to unpack (expected at least 2, got ''
                            @ str_nat (length args) @ '')'')), book))"

definition add_contact :: "string list \<Rightarrow> AddressBook \<Rightarrow> (error + string) \<times> AddressBook" where
  "add_contact args book =
     (case add_contact_body args book of (res, book') \<Rightarrow> (input_error res, book'))"

text \<open>
  The body of \<open>change_contact\<close>.  Unpacking \<open>name, old_phone, new_phone = args\<close> raises
  \<open>ValueError\<close> unless \<open>args\<close> has exactly three items.
\<close>

definition change_contact_body ::
  "string list \<Rightarrow> AddressBook \<Rightarrow> (error + string) \<times> AddressBook" where
  "change_contact_body args book =
     (case args of
        [nm, old_phone, new_phone] \<Rightarrow>
          (case find book nm of
             Some record \<Rightarrow>
               (case edit_phone record old_phone new_phone of
                  (Inl e, record') \<Rightarrow> (Inl e, write_back book nm record')
                | (Inr _, record') \<Rightarrow> (Inr ''Phone updated.'', write_back book nm record'))
           | None \<Rightarrow> (Inr ''Contact not found.'', book))
      | _ \<Rightarrow>
          (if length args < 3
           then (Inl (ValueError (''not enough values to unpack (expected 3, got ''
                                  @ str_nat (length args) @ '')'')), book)
           else (Inl (ValueError ''too many values to unpack (expected 3)''), book)))"

definition change_contact :: "string list \<Rightarrow> AddressBook \<Rightarrow> (error + string) \<times> AddressBook" where
  "change_contact args book =
     (case change_contact_body args book of (res, book') \<Rightarrow> (input_error res, book'))"

section \<open>Notions of the specification\<close>

text \<open>A decimal digit, as the specification of \<open>Phone\<close> uses the word: one of 0..9.\<close>

definition spec_decimal_digit :: "char \<Rightarrow> bool" where
  "spec_decimal_digit c \<longleftrightarrow> c \<in> set ''0123456789''"

text \<open>
  The pattern DD.MM.YYYY as the specification of \<open>Birthday\<close> states it: ten characters,
  two digits, a dot, two digits, a dot and four digits, the digits being 0..9.
\<close>

definition spec_digit :: "nat \<Rightarrow> bool" where
  "spec_digit c \<longleftrightarrow> cp_between (CHR ''0'') (CHR ''9'') c"

definition spec_DDMMYYYY :: "codepoints \<Rightarrow> bool" where
  "spec_DDMMYYYY s \<longleftrightarrow>
     length s = 10 \<and> spec_digit (s ! 0) \<and> spec_digit (s ! 1) \<and>
     s ! 2 = code_point (CHR ''.'') \<and> spec_digit (s ! 3) \<and> spec_digit (s ! 4) \<and>
     s ! 5 = code_point (CHR ''.'') \<and> spec_digit (s ! 6) \<and> spec_digit (s ! 7) \<and>
     spec_digit (s ! 8) \<and> spec_digit (s ! 9)"

text \<open>The day, month and year that a text of ten characters denotes.\<close>

definition text_day :: "codepoints \<Rightarrow> int" where
  "text_day s = int_of_str (take 2 s)"

definition text_month :: "codepoints \<Rightarrow> int" where
  "text_month s = int_of_str (take 2 (drop 3 s))"

definition text_year :: "codepoints \<Rightarrow> int" where
  "text_year s = int_of_str (take 4 (drop 6 s))"

text \<open>
  The texts of ten characters that \<open>Birthday\<close> takes for the pattern.  The day is 3 and then
  0 or 1, or 1 or 2 and then any decimal digit, or 0 and then one of 1..9, or a blank and
  then one of 1..9; the month is 1 and then one of 0..2, or 0 and then one of 1..9; the
  year is four decimal digits; a dot stands after the day and after the month.  Where a
  range is named the digit is an ASCII digit, and a decimal digit is any of Unicode.
\<close>

definition day_text :: "nat \<Rightarrow> nat \<Rightarrow> bool" where
  "day_text a b \<longleftrightarrow>
     (a = code_point (CHR ''3'') \<and> cp_between (CHR ''0'') (CHR ''1'') b) \<or>
     (cp_between (CHR ''1'') (CHR ''2'') a \<and> re_digit b) \<or>
     (a = code_point (CHR ''0'') \<and> cp_between (CHR ''1'') (CHR ''9'') b) \<or>
     (a = code_point (CHR '' '') \<and> cp_between (CHR ''1'') (CHR ''9'') b)"

definition month_text :: "nat \<Rightarrow> nat \<Rightarrow> bool" where
  "month_text a b \<longleftrightarrow>
     (a = code_point (CHR ''1'') \<and> cp_between (CHR ''0'') (CHR ''2'') b) \<or>
     (a = code_point (CHR ''0'') \<and> cp_between (CHR ''1'') (CHR ''9'') b)"

definition accepted_text :: "codepoints \<Rightarrow> bool" where
  "accepted_text s \<longleftrightarrow>
     length s = 10 \<and> day_text (s ! 0) (s ! 1) \<and> s ! 2 = code_point (CHR ''.'') \<and>
     month_text (s ! 3) (s ! 4) \<and> s ! 5 = code_point (CHR ''.'') \<and>
     re_digit (s ! 6) \<and> re_digit (s ! 7) \<and> re_digit (s ! 8) \<and> re_digit (s ! 9)"

text \<open>The dates of birth held by a list of records, in the order of the records.\<close>

definition birthday_dates :: "Record list \<Rightarrow> date list" where
  "birthday_dates rs =
     concat (map (\<lambda>r. case birthday r of None \<Rightarrow> [] | Some b \<Rightarrow> [field_value b]) rs)"

text \<open>
  The projection of a date of birth as the specification describes it: the same month and
  day in the current year, or in the next year when that day of the current year is
  already past.
\<close>

definition spec_rolled :: "date \<Rightarrow> date \<Rightarrow> bool" where
  "spec_rolled today bd \<longleftrightarrow>
     month bd < month today \<or> (month bd = month today \<and> day bd < day today)"

definition spec_projected :: "date \<Rightarrow> date \<Rightarrow> date" where
  "spec_projected today bd =
     \<lparr>year = (if spec_rolled today bd then year today + 1 else year today),
      month = month bd, day = day bd\<rparr>"

text \<open>
  The dates that the projection has to build exist: the day in the current year, and the
  day in the next year when the projection rolls over.
\<close>

definition projection_exists :: "date \<Rightarrow> date \<Rightarrow> bool" where
  "projection_exists today bd \<longleftrightarrow>
     day bd \<le> days_in_month (year today) (month bd) \<and>
     (spec_rolled today bd \<longrightarrow>
        year today + 1 \<le> MAXYEAR \<and> day bd \<le> days_in_month (year today + 1) (month bd))"

text \<open>The inclusion test: the days until the date lie in \<open>[0, days]\<close>.\<close>

definition spec_in_window :: "date \<Rightarrow> int \<Rightarrow> date \<Rightarrow> bool" where
  "spec_in_window today days p \<longleftrightarrow> 0 \<le> date_sub p today \<and> date_sub p today \<le> days"

text \<open>The weekend adjustment: a Saturday moves two days on, a Sunday one day on.\<close>

definition spec_adjusted :: "date \<Rightarrow> date" where
  "spec_adjusted p =
     (if weekday p = 5 then forward 2 p else if weekday p = 6 then forward 1 p else p)"

text \<open>
  The public operations of the collection, and the state each leaves behind.  \<open>find\<close> and
  \<open>get_upcoming_birthdays\<close> only read the dictionary, whatever they return or raise.
\<close>

datatype operation =
  Add_record Record | Find string | Delete string | Get_upcoming_birthdays date int

fun apply_operation :: "AddressBook \<Rightarrow> operation \<Rightarrow> AddressBook" where
  "apply_operation book (Add_record record) = add_record book record"
| "apply_operation book (Find nm) = (case find book nm of _ \<Rightarrow> book)"
| "apply_operation book (Delete nm) = delete book nm"
| "apply_operation book (Get_upcoming_birthdays today days) =
     (case get_upcoming_birthdays book today days of _ \<Rightarrow> book)"

text \<open>The states reachable from the empty collection.\<close>

inductive reachable :: "AddressBook \<Rightarrow> bool" where
  reachable_empty: "reachable []"
| reachable_step: "reachable book \<Longrightarrow> reachable (apply_operation book op)"

text \<open>Every stored record is stored under its own name.\<close>

definition key_is_name :: "AddressBook \<Rightarrow> bool" where
  "key_is_name book \<longleftrightarrow> list_all (\<lambda>kv. field_value (name (snd kv)) = fst kv) book"

section \<open>Properties of the date model\<close>

lemma div_pred: 
  fixes y k :: int assumes "0 < k"
  shows "y div k = (y - 1) div k + (if y mod k = 0 then 1 else 0)"
proof (cases "y mod k = 0")
  case True
  have "y - 1 = k * (y div k - 1) + (k - 1)" using True
    by (metis add.commute add_diff_eq diff_add_cancel mult.commute mult_cancel_left2 mult_div_mod_eq add.right_neutral right_diff_distrib)
  then have "(y - 1) div k = y div k - 1"
    using assms by (intro int_div_pos_eq[where r = "k - 1"]) auto
  with True show ?thesis by simp
next
  case False
  have m: "0 \<le> y mod k" "y mod k < k" using assms by auto
  have "y - 1 = k * (y div k) + (y mod k - 1)" by simp
  then have "(y - 1) div k = y div k"
    using assms False m by (intro int_div_pos_eq[where r = "y mod k - 1"]) auto
  with False show ?thesis by simp
qed

lemma mod_100_4: "(y::int) mod 100 = 0 \<Longrightarrow> y mod 4 = 0"
proof -
  assume "y mod 100 = 0"
  then have "100 dvd y" by (simp add: dvd_eq_mod_eq_0)
  moreover have "(4::int) dvd 100" by simp
  ultimately have "4 dvd y" using dvd_trans by blast
  then show ?thesis by simp
qed

lemma mod_400_100: "(y::int) mod 400 = 0 \<Longrightarrow> y mod 100 = 0"
proof -
  assume "y mod 400 = 0"
  then have "400 dvd y" by (simp add: dvd_eq_mod_eq_0)
  moreover have "(100::int) dvd 400" by simp
  ultimately have "100 dvd y" using dvd_trans by blast
  then show ?thesis by simp
qed

lemma dby_Suc: "days_before_year (y + 1) = days_before_year y + (if is_leap y then 366 else 365)"
proof -
  have a: "(y::int) div 4 = (y - 1) div 4 + (if y mod 4 = 0 then 1 else 0)" by (rule div_pred) simp
  have b: "(y::int) div 100 = (y - 1) div 100 + (if y mod 100 = 0 then 1 else 0)" by (rule div_pred) simp
  have c: "(y::int) div 400 = (y - 1) div 400 + (if y mod 400 = 0 then 1 else 0)" by (rule div_pred) simp
  have "days_before_year (y + 1) = y * 365 + y div 4 - y div 100 + y div 400"
    unfolding days_before_year_def Let_def by simp
  also have "\<dots> = days_before_year y + 365 + (if y mod 4 = 0 then 1 else 0) -  (if y mod 100 = 0 then 1 else 0) + (if y mod 400 = 0 then 1 else 0)"
    unfolding days_before_year_def Let_def
    apply (subst a, subst b, subst c) by (simp add: algebra_simps)
  finally have e: "days_before_year (y + 1) = days_before_year y + 365 + (if y mod 4 = 0 then 1 else 0) -  (if y mod 100 = 0 then 1 else 0) + (if y mod 400 = 0 then 1 else 0)" .
  show ?thesis
  proof (cases "y mod 400 = 0")
    case True
    then have "y mod 100 = 0" by (rule mod_400_100)
    moreover from this have "y mod 4 = 0" by (rule mod_100_4)
    ultimately have "y mod 100 = 0" "y mod 4 = 0" by blast+
    with True e show ?thesis by (simp add: is_leap_def)
  next
    case F: False
    show ?thesis
    proof (cases "y mod 100 = 0")
      case True
      then have "y mod 4 = 0" by (rule mod_100_4)
      with True F e show ?thesis by (simp add: is_leap_def)
    next
      case False
      with F e show ?thesis by (simp add: is_leap_def)
    qed
  qed
qed

lemma dby_mono_step: "days_before_year y \<le> days_before_year (y + 1)"
  by (simp add: dby_Suc)

lemma dby_mono: "a \<le> b \<Longrightarrow> days_before_year a \<le> days_before_year b"
proof (induction "nat (b - a)" arbitrary: b)
  case 0
  then show ?case by simp
next
  case (Suc n)
  then have "n = nat ((b - 1) - a)" "a \<le> b - 1" by linarith+
  then have "days_before_year a \<le> days_before_year (b - 1)" using Suc.hyps(1) by blast
  also have "\<dots> \<le> days_before_year b" using dby_mono_step[of "b - 1"] by simp
  finally show ?case .
qed

lemma dby_strict: "a < b \<Longrightarrow> days_before_year a + 365 \<le> days_before_year b"
proof -
  assume "a < b"
  then have "days_before_year (a + 1) \<le> days_before_year b" by (intro dby_mono) simp
  then show ?thesis by (simp add: dby_Suc split: if_splits)
qed

lemma dby_1: "days_before_year 1 = 0" by (simp add: days_before_year_def)
lemma dby_9999: "days_before_year 9999 = 3651694" by (simp add: days_before_year_def)
lemma leap_9999: "\<not> is_leap 9999" by (simp add: is_leap_def)

lemma month_cases:
  fixes m :: int
  assumes "1 \<le> m" "m \<le> 12"
  shows "m = 1 \<or> m = 2 \<or> m = 3 \<or> m = 4 \<or> m = 5 \<or> m = 6 \<or> m = 7 \<or> m = 8
         \<or> m = 9 \<or> m = 10 \<or> m = 11 \<or> m = 12"
  using assms by arith

lemma dbm_Suc:
  assumes "1 \<le> m" "m < 12"
  shows "days_before_month y (m + 1) = days_before_month y m + days_in_month y m"
proof -
  have "m = 1 \<or> m = 2 \<or> m = 3 \<or> m = 4 \<or> m = 5 \<or> m = 6 \<or> m = 7 \<or> m = 8
         \<or> m = 9 \<or> m = 10 \<or> m = 11" using assms by arith
  then show ?thesis
    by (elim disjE) (simp_all add: days_before_month_def DAYS_BEFORE_MONTH_def days_in_month_def)
qed

lemma dbm_12: "days_before_month y 12 + 31 = (if is_leap y then 366 else 365)"
  by (simp add: days_before_month_def DAYS_BEFORE_MONTH_def)

lemma dbm_1: "days_before_month y 1 = 0"
  by (simp add: days_before_month_def DAYS_BEFORE_MONTH_def)

lemma dim_12: "days_in_month y 12 = 31"
  by (simp add: days_in_month_def)

lemma dim_bounds: "28 \<le> days_in_month y m \<and> days_in_month y m \<le> 31"
  by (simp add: days_in_month_def)

lemma next_day_ord: 
  assumes "valid_date d"
  shows "toordinal (next_day d) = toordinal d + 1"
proof -
  from assms have m: "1 \<le> month d" "month d \<le> 12" and dd: "day d \<le> days_in_month (year d) (month d)"
    by (simp_all add: valid_date_def)
  consider (a) "day d < days_in_month (year d) (month d)"
    | (b) "day d = days_in_month (year d) (month d)" "month d < 12"
    | (c) "day d = days_in_month (year d) (month d)" "month d = 12"
    using m dd by linarith
  then show ?thesis
  proof cases
    case a
    then show ?thesis by (simp add: next_day_def toordinal_def)
  next
    case b
    then show ?thesis using m dbm_Suc[of "month d" "year d"]
      by (simp add: next_day_def toordinal_def)
  next
    case c
    then show ?thesis using dbm_12[of "year d"] dby_Suc[of "year d"]
      by (simp add: next_day_def toordinal_def dim_12 dbm_1)
  qed
qed

lemma next_day_less:
  assumes "valid_date d"
  shows "date_less d (next_day d)"
  using assms by (simp add: next_day_def date_less_def valid_date_def)

lemma next_day_fields:
  assumes "valid_date d"
  shows "1 \<le> month (next_day d) \<and> month (next_day d) \<le> 12 \<and> 1 \<le> day (next_day d) \<and>
         day (next_day d) \<le> days_in_month (year (next_day d)) (month (next_day d)) \<and>
         year d \<le> year (next_day d)"
  using assms dim_bounds[of "year d" "month d + 1"] dim_bounds[of "year d + 1" 1]
  by (simp add: next_day_def valid_date_def)

lemma toordinal_lower: "valid_date d \<Longrightarrow> 1 \<le> toordinal d"
proof -
  assume v: "valid_date d"
  then have "days_before_year 1 \<le> days_before_year (year d)"
    by (intro dby_mono) (simp add: valid_date_def MINYEAR_def)
  moreover have "0 \<le> days_before_month (year d) (month d)"
    by (simp add: days_before_month_def DAYS_BEFORE_MONTH_def)
  ultimately show ?thesis using v by (simp add: toordinal_def valid_date_def dby_1)
qed

lemma in_year_upper:
  assumes "1 \<le> month d" "month d \<le> 12" "day d \<le> days_in_month (year d) (month d)"
  shows "days_before_month (year d) (month d) + day d \<le> (if is_leap (year d) then 366 else 365)"
proof -
  from month_cases[OF assms(1,2)] show ?thesis using assms(3)
    by (elim disjE) (simp_all add: days_before_month_def DAYS_BEFORE_MONTH_def days_in_month_def split: if_splits)
qed

lemma toordinal_upper: "valid_date d \<Longrightarrow> toordinal d \<le> MAXORDINAL"
proof -
  assume v: "valid_date d"
  show ?thesis
  proof (cases "year d = 9999")
    case True
    then show ?thesis using v in_year_upper[of d] leap_9999
      by (simp add: toordinal_def valid_date_def dby_9999 MAXORDINAL_def)
  next
    case False
    with v have "year d < 9999" by (simp add: valid_date_def MAXYEAR_def)
    then have "days_before_year (year d + 1) \<le> days_before_year 9999" by (intro dby_mono) simp
    then show ?thesis using v in_year_upper[of d]
      by (simp add: toordinal_def valid_date_def dby_9999 MAXORDINAL_def dby_Suc split: if_splits)
  qed
qed

lemma toordinal_mono:
  assumes "valid_date a" "valid_date b" "date_less a b"
  shows "toordinal a < toordinal b"
proof -
  have ma: "1 \<le> month a" "month a \<le> 12" "1 \<le> day a" "day a \<le> days_in_month (year a) (month a)"
    and mb: "1 \<le> month b" "month b \<le> 12" "1 \<le> day b" "day b \<le> days_in_month (year b) (month b)"
    using assms by (simp_all add: valid_date_def)
  consider (y) "year a < year b" | (m) "year a = year b" "month a < month b"
    | (d) "year a = year b" "month a = month b" "day a < day b"
    using assms(3) by (auto simp: date_less_def)
  then show ?thesis
  proof cases
    case y
    then have "days_before_year (year a + 1) \<le> days_before_year (year b)" by (intro dby_mono) simp
    moreover have "0 \<le> days_before_month (year b) (month b)"
      by (simp add: days_before_month_def DAYS_BEFORE_MONTH_def)
    ultimately show ?thesis using in_year_upper[OF ma(1,2,4)] mb(3)
      by (simp add: toordinal_def dby_Suc split: if_splits)
  next
    case m
    have "days_before_month (year a) (month a) + days_in_month (year a) (month a)
          \<le> days_before_month (year a) (month b)"
      using month_cases[OF ma(1,2)] month_cases[OF mb(1,2)] m(2)
      by (elim disjE) (simp_all add: days_before_month_def DAYS_BEFORE_MONTH_def days_in_month_def)
    then show ?thesis using m ma mb by (simp add: toordinal_def)
  next
    case d
    then show ?thesis by (simp add: toordinal_def)
  qed
qed

lemma max_date_ord: "toordinal \<lparr>year = 9999, month = 12, day = 31\<rparr> = MAXORDINAL"
  by (simp add: toordinal_def days_before_year_def days_before_month_def DAYS_BEFORE_MONTH_def
      is_leap_def MAXORDINAL_def)

lemma next_day_valid:
  assumes "valid_date d" "toordinal d < MAXORDINAL"
  shows "valid_date (next_day d)"
proof -
  have "year (next_day d) \<le> MAXYEAR"
  proof (rule ccontr)
    assume "\<not> year (next_day d) \<le> MAXYEAR"
    then have "year d = 9999 \<and> month d = 12 \<and> day d = 31" using assms(1)
      by (simp add: next_day_def valid_date_def MAXYEAR_def dim_12 split: if_splits)
    then have "d = \<lparr>year = 9999, month = 12, day = 31\<rparr>" by simp
    then show False using assms(2) max_date_ord by simp
  qed
  then show ?thesis using next_day_fields[OF assms(1)] assms(1)
    by (simp add: valid_date_def)
qed

lemma date_less_trans: "date_less a b \<Longrightarrow> date_less b c \<Longrightarrow> date_less a c"
  by (auto simp: date_less_def)

lemma forward_props:
  "valid_date d \<Longrightarrow> toordinal d + int n \<le> MAXORDINAL \<Longrightarrow>
     valid_date (forward n d) \<and> toordinal (forward n d) = toordinal d + int n \<and>
     (0 < n \<longrightarrow> date_less d (forward n d))"
proof (induction n arbitrary: d)
  case 0
  then show ?case by simp
next
  case (Suc n)
  have v: "valid_date (next_day d)" using Suc.prems by (intro next_day_valid) simp_all
  have o: "toordinal (next_day d) = toordinal d + 1" using Suc.prems(1) by (rule next_day_ord)
  have "toordinal (next_day d) + int n \<le> MAXORDINAL" using o Suc.prems(2) by simp
  from Suc.IH[OF v this] have ih: "valid_date (forward n (next_day d))"
    "toordinal (forward n (next_day d)) = toordinal (next_day d) + int n"
    "0 < n \<longrightarrow> date_less (next_day d) (forward n (next_day d))" by simp_all
  have "date_less d (forward n (next_day d))"
  proof (cases "n = 0")
    case True
    then show ?thesis using next_day_less[OF Suc.prems(1)] by simp
  next
    case False
    then show ?thesis using ih(3) next_day_less[OF Suc.prems(1)] date_less_trans by blast
  qed
  then show ?case using ih o by simp
qed

lemma weekday_range: "0 \<le> weekday d \<and> weekday d \<le> 6"
  by (simp add: weekday_def)

lemma days_ahead_range:
  assumes "0 \<le> w" "w \<le> 6"
  shows "1 \<le> (if w - weekday d \<le> 0 then w - weekday d + 7 else w - weekday d) \<and>
         (if w - weekday d \<le> 0 then w - weekday d + 7 else w - weekday d) \<le> 7"
  using assms weekday_range[of d] by auto

lemma gap_mod:
  fixes a w :: int
  assumes "0 \<le> w" "w \<le> 6"
  shows "(a + (if w - (a + 6) mod 7 \<le> 0 then w - (a + 6) mod 7 + 7 else w - (a + 6) mod 7) + 6) mod 7 = w"
proof -
  define m where "m = (a + 6) mod 7"
  have e: "a + 6 = 7 * ((a + 6) div 7) + m" by (simp add: m_def)
  have w: "w mod 7 = w" using assms by simp
  have "a + (w - m) + 6 = (a + 6) - m + w" by simp
  also have "\<dots> = 7 * ((a + 6) div 7) + w" using e by linarith
  finally have "(a + (w - m) + 6) mod 7 = (7 * ((a + 6) div 7) + w) mod 7"
    by (rule arg_cong)
  also have "\<dots> = w" using w by (simp add: mod_mult_self4)
  finally have 1: "(a + (w - m) + 6) mod 7 = w" .
  have "(a + (w - m + 7) + 6) mod 7 = (a + (w - m) + 6 + 7) mod 7" by (simp add: algebra_simps)
  also have "\<dots> = (a + (w - m) + 6) mod 7" by (rule mod_add_self2)
  also have "\<dots> = w" by (rule 1)
  finally have 2: "(a + (w - m + 7) + 6) mod 7 = w" .
  show ?thesis using 1 2 unfolding m_def by (simp split: if_splits)
qed

lemma no_closer:
  fixes a r g w :: int
  assumes "a < r" "r < a + g" "g \<le> 7" "(r + 6) mod 7 = w" "(a + g + 6) mod 7 = w"
  shows False
proof -
  have "(a + g + 6) mod 7 = (r + 6) mod 7" using assms by simp
  then have "7 dvd (a + g + 6) - (r + 6)" by (simp add: mod_eq_dvd_iff)
  then have "7 dvd (a + g - r)" by (simp add: algebra_simps)
  moreover have "0 < a + g - r" "a + g - r < 7" using assms by simp_all
  ultimately show False using zdvd_not_zless by blast
qed

lemma prev_day_ord:
  assumes "valid_date d"
  shows "toordinal (prev_day d) = toordinal d - 1"
proof -
  from assms have m: "1 \<le> month d" "month d \<le> 12" and dd: "1 \<le> day d"
    by (simp_all add: valid_date_def)
  consider (a) "1 < day d" | (b) "day d = 1" "1 < month d" | (c) "day d = 1" "month d = 1"
    using m dd by linarith
  then show ?thesis
  proof cases
    case a
    then show ?thesis by (simp add: prev_day_def toordinal_def)
  next
    case b
    then show ?thesis using m dbm_Suc[of "month d - 1" "year d"]
      by (simp add: prev_day_def toordinal_def)
  next
    case c
    then show ?thesis using dbm_12[of "year d - 1"] dby_Suc[of "year d - 1"]
      by (simp add: prev_day_def toordinal_def dbm_1)
  qed
qed

lemma min_date_ord: "toordinal \<lparr>year = 1, month = 1, day = 1\<rparr> = 1"
  by (simp add: toordinal_def dby_1 dbm_1)

lemma prev_day_valid:
  assumes "valid_date d" "1 < toordinal d"
  shows "valid_date (prev_day d)"
proof -
  have "MINYEAR \<le> year (prev_day d)"
  proof (rule ccontr)
    assume "\<not> MINYEAR \<le> year (prev_day d)"
    then have "year d = 1 \<and> month d = 1 \<and> day d = 1" using assms(1)
      by (simp add: prev_day_def valid_date_def MINYEAR_def split: if_splits)
    then have "d = \<lparr>year = 1, month = 1, day = 1\<rparr>" by simp
    then show False using assms(2) min_date_ord by simp
  qed
  moreover have "days_in_month (year d - 1) 12 = 31" by (simp add: days_in_month_def)
  ultimately show ?thesis using assms(1) dim_bounds[of "year d" "month d - 1"]
    by (simp add: valid_date_def prev_day_def)
qed

lemma backward_props:
  "valid_date d \<Longrightarrow> 0 < toordinal d - int n \<Longrightarrow>
     valid_date (backward n d) \<and> toordinal (backward n d) = toordinal d - int n"
proof (induction n arbitrary: d)
  case 0
  then show ?case by simp
next
  case (Suc n)
  have v: "valid_date (prev_day d)" using Suc.prems by (intro prev_day_valid) simp_all
  have o: "toordinal (prev_day d) = toordinal d - 1" using Suc.prems(1) by (rule prev_day_ord)
  have "0 < toordinal (prev_day d) - int n" using o Suc.prems(2) by simp
  from Suc.IH[OF v this] show ?case using o by simp
qed

lemma date_add_ord:
  assumes "valid_date d"
  shows "date_add d k =
           (if 0 < toordinal d + k \<and> toordinal d + k \<le> MAXORDINAL
            then Inr (if 0 \<le> k then forward (nat k) d else backward (nat (- k)) d)
            else Inl (OverflowError ''date value out of range''))"
    and "date_add d k = Inr r \<Longrightarrow> valid_date r \<and> toordinal r = toordinal d + k"
proof -
  show "date_add d k =
           (if 0 < toordinal d + k \<and> toordinal d + k \<le> MAXORDINAL
            then Inr (if 0 \<le> k then forward (nat k) d else backward (nat (- k)) d)
            else Inl (OverflowError ''date value out of range''))"
    by (simp add: date_add_def Let_def)
  assume r: "date_add d k = Inr r"
  then have b: "0 < toordinal d + k" "toordinal d + k \<le> MAXORDINAL"
    by (simp_all add: date_add_def Let_def split: if_splits)
  show "valid_date r \<and> toordinal r = toordinal d + k"
  proof (cases "0 \<le> k")
    case True
    then have "r = forward (nat k) d" using r b by (simp add: date_add_def Let_def)
    moreover have "toordinal d + int (nat k) \<le> MAXORDINAL" using True b by simp
    ultimately show ?thesis using forward_props[OF assms, of "nat k"] True by simp
  next
    case False
    then have "r = backward (nat (- k)) d" using r b by (simp add: date_add_def Let_def)
    moreover have "0 < toordinal d - int (nat (- k))" using False b by simp
    ultimately show ?thesis using backward_props[OF assms, of "nat (- k)"] False by simp
  qed
qed

lemma date_less_iff_ord:
  assumes "valid_date a" "valid_date b"
  shows "date_less a b \<longleftrightarrow> toordinal a < toordinal b"
proof
  assume "date_less a b" then show "toordinal a < toordinal b"
    using assms toordinal_mono by blast
next
  assume l: "toordinal a < toordinal b"
  show "date_less a b"
  proof (rule ccontr)
    assume n: "\<not> date_less a b"
    have "a = b \<or> date_less b a"
      using n by (cases a, cases b) (auto simp: date_less_def)
    then show False
    proof
      assume "a = b" with l show False by simp
    next
      assume "date_less b a"
      then have "toordinal b < toordinal a" using assms toordinal_mono by blast
      with l show False by simp
    qed
  qed
qed

section \<open>The claims\<close>

subsection \<open>C2: \<open>find_next_weekday\<close>\<close>

text \<open>
  C2 (as amended).  For every date \<open>d\<close> and every weekday index \<open>w\<close> in 0..6,
  \<open>find_next_weekday d w\<close> either returns a date strictly after \<open>d\<close> whose weekday is \<open>w\<close>,
  between 1 and 7 days after \<open>d\<close> (so never \<open>d\<close> itself), or raises \<open>OverflowError\<close>, and
  it raises only when no date after \<open>d\<close> up to 31 December 9999 falls on weekday \<open>w\<close>.
\<close>

theorem find_next_weekday_in_range:
  assumes "valid_date d" "0 \<le> w" "w \<le> 6"
  shows "case find_next_weekday d w of
           Inr r \<Rightarrow> valid_date r \<and> date_less d r \<and> weekday r = w \<and>
                    1 \<le> date_sub r d \<and> date_sub r d \<le> 7
         | Inl e \<Rightarrow> e = OverflowError ''date value out of range'' \<and>
                    (\<forall>r. valid_date r \<and> date_less d r \<longrightarrow> weekday r \<noteq> w)"
proof -
  define g where "g = (if w - weekday d \<le> 0 then w - weekday d + 7 else w - weekday d)"
  have g: "1 \<le> g" "g \<le> 7" using days_ahead_range[OF assms(2,3), of d] by (simp_all add: g_def)
  have f: "find_next_weekday d w = date_add d g"
    by (simp add: find_next_weekday_def Let_def g_def)
  have gw: "(toordinal d + g + 6) mod 7 = w"
    unfolding g_def weekday_def by (rule gap_mod[OF assms(2,3)])
  show ?thesis
  proof (cases "find_next_weekday d w")
    case (Inr r)
    then have "date_add d g = Inr r" using f by simp
    from date_add_ord(2)[OF assms(1) this] have r: "valid_date r" "toordinal r = toordinal d + g"
      by simp_all
    have "date_less d r" using date_less_iff_ord[OF assms(1) r(1)] r(2) g by simp
    moreover have "weekday r = w" using gw r(2) by (simp add: weekday_def)
    ultimately show ?thesis using Inr r g by (simp add: date_sub_def)
  next
    case (Inl e)
    then have a: "date_add d g = Inl e" using f by simp
    have pos: "0 < toordinal d + g" using toordinal_lower[OF assms(1)] g by simp
    from a pos have e: "e = OverflowError ''date value out of range''"
      and big: "MAXORDINAL < toordinal d + g"
      by (simp_all add: date_add_def Let_def split: if_splits)
    have "weekday r \<noteq> w" if "valid_date r" "date_less d r" for r
    proof
      assume wr: "weekday r = w"
      have 1: "toordinal d < toordinal r" using that assms(1) toordinal_mono by blast
      have 2: "toordinal r < toordinal d + g" using toordinal_upper[OF that(1)] big by simp
      have 3: "(toordinal r + 6) mod 7 = w" using wr by (simp add: weekday_def)
      show False by (rule no_closer[OF 1 2 g(2) 3 gw])
    qed
    then show ?thesis using Inl e by simp
  qed
qed

text \<open>Saturday 28 December 2024 and Monday: the result is 30 December 2024.\<close>

lemma sat_28_12_2024: "toordinal \<lparr>year = 2024, month = 12, day = 28\<rparr> = 739248"
  by (simp add: toordinal_def days_before_year_def days_before_month_def DAYS_BEFORE_MONTH_def is_leap_def)

theorem find_next_weekday_in_range_witness:
  "valid_date \<lparr>year = 2024, month = 12, day = 28\<rparr> \<and>
   find_next_weekday \<lparr>year = 2024, month = 12, day = 28\<rparr> 0
     = Inr \<lparr>year = 2024, month = 12, day = 30\<rparr> \<and>
   date_less \<lparr>year = 2024, month = 12, day = 28\<rparr> \<lparr>year = 2024, month = 12, day = 30\<rparr> \<and>
   weekday \<lparr>year = 2024, month = 12, day = 30\<rparr> = 0 \<and>
   date_sub \<lparr>year = 2024, month = 12, day = 30\<rparr> \<lparr>year = 2024, month = 12, day = 28\<rparr> = 2"
proof -
  have v: "valid_date \<lparr>year = 2024, month = 12, day = 28\<rparr>"
    by (simp add: valid_date_def MINYEAR_def MAXYEAR_def days_in_month_def)
  have f: "find_next_weekday \<lparr>year = 2024, month = 12, day = 28\<rparr> 0
     = Inr \<lparr>year = 2024, month = 12, day = 30\<rparr>"
    by (simp add: find_next_weekday_def weekday_def sat_28_12_2024 date_add_def MAXORDINAL_def
        Let_def eval_nat_numeral next_day_def days_in_month_def)
  from find_next_weekday_in_range[OF v, of 0] f v show ?thesis
    by (simp add: date_sub_def toordinal_def days_before_month_def DAYS_BEFORE_MONTH_def)
qed

theorem find_next_weekday_overflow:
  "valid_date \<lparr>year = 9999, month = 12, day = 31\<rparr> \<and>
   find_next_weekday \<lparr>year = 9999, month = 12, day = 31\<rparr> 0
     = Inl (OverflowError ''date value out of range'')"
  by (simp add: valid_date_def MINYEAR_def MAXYEAR_def days_in_month_def
      find_next_weekday_def weekday_def max_date_ord date_add_def MAXORDINAL_def Let_def)

subsection \<open>C3: \<open>Phone\<close>\<close>

text \<open>
  C3 (as amended).  For every string \<open>p\<close>, \<open>Phone p\<close> succeeds if and only if \<open>p\<close> has length
  exactly 10 and every character satisfies \<open>str.isdigit\<close>, which holds for 0..9 and for
  the superscript digits as well; on success the stored value renders back to \<open>p\<close>
  unchanged, and otherwise construction fails with the \<open>ValueError\<close> of the class.
\<close>

theorem Phone_accepts:
  "Phone p = (if length p = 10 \<and> list_all isdigit_char p then Inr (Field p)
              else Inl (ValueError ''Phone number must be 10 digits long!'')) \<and>
   (\<forall>f. Phone p = Inr f \<longrightarrow> Field_str f = p)"
  by (auto simp: Phone_def str_isdigit_def Field_str_def)

theorem Phone_accepts_witness:
  "Phone ''1234567890'' = Inr (Field ''1234567890'') \<and>
   Field_str (Field ''1234567890'') = ''1234567890'' \<and>
   Phone ''12345'' = Inl (ValueError ''Phone number must be 10 digits long!'') \<and>
   Phone ''12345678x0'' = Inl (ValueError ''Phone number must be 10 digits long!'')"
  using Phone_accepts[of "''1234567890''"] Phone_accepts[of "''12345''"]
    Phone_accepts[of "''12345678x0''"]
  by (simp add: isdigit_char_def char_between_def)

text \<open>
  Ten times the character U+00B2 (superscript two) is accepted, though no character of
  it is a decimal digit.
\<close>

theorem Phone_superscript_digits:
  "Phone [CHR 0xB2, CHR 0xB2, CHR 0xB2, CHR 0xB2, CHR 0xB2, CHR 0xB2, CHR 0xB2, CHR 0xB2, CHR 0xB2, CHR 0xB2]
     = Inr (Field [CHR 0xB2, CHR 0xB2, CHR 0xB2, CHR 0xB2, CHR 0xB2, CHR 0xB2, CHR 0xB2, CHR 0xB2, CHR 0xB2, CHR 0xB2]) \<and>
   \<not> spec_decimal_digit (CHR 0xB2)"
  by (simp add: Phone_def str_isdigit_def isdigit_char_def spec_decimal_digit_def)

subsection \<open>C5 and C6: \<open>edit_phone\<close>\<close>

lemma find_phone_first:
  assumes "phones r = ps @ Field p # qs" "Field p \<notin> set ps"
  shows "find_phone r p = Some (Field p)"
proof -
  have "\<forall>ph \<in> set ps. field_value ph \<noteq> p"
  proof
    fix ph assume "ph \<in> set ps"
    then have "ph \<noteq> Field p" using assms(2) by blast
    then show "field_value ph \<noteq> p" by (cases ph) simp
  qed
  then have "List.find (\<lambda>ph. field_value ph = p) (ps @ Field p # qs) = Some (Field p)"
    by (induction ps) simp_all
  then show ?thesis by (simp add: find_phone_def assms(1))
qed

lemma find_phone_None:
  assumes "Field p \<notin> set (phones r)"
  shows "find_phone r p = None"
proof -
  have "\<not> (\<exists>ph. ph \<in> set (phones r) \<and> field_value ph = p)"
  proof
    assume "\<exists>ph. ph \<in> set (phones r) \<and> field_value ph = p"
    then obtain ph where ph: "ph \<in> set (phones r)" "field_value ph = p" by blast
    from ph(2) have "ph = Field p" by (cases ph) simp
    with ph(1) assms show False by simp
  qed
  then show ?thesis by (simp add: find_phone_def find_None_iff)
qed

lemma remove_phone_first:
  assumes "phones r = ps @ Field p # qs" "Field p \<notin> set ps"
  shows "remove_phone r p = (Inr (), r\<lparr>phones := ps @ qs\<rparr>)"
  using assms find_phone_first[OF assms]
  by (simp add: remove_phone_def list_remove_def remove1_append)

lemma Phone_cases:
  "Phone p = Inl (ValueError ''Phone number must be 10 digits long!'') \<or> Phone p = Inr (Field p)"
  by (simp add: Phone_def)

text \<open>
  C5.  For every record whose phone list contains \<open>old_phone\<close>, \<open>edit_phone\<close> first removes
  exactly one entry, the first that holds \<open>old_phone\<close>, and then constructs and appends the
  validated \<open>new_phone\<close>; when \<open>new_phone\<close> fails the validation of \<open>Phone\<close>, the call raises
  that error and leaves the list with the old phone already removed.
\<close>

theorem edit_phone_found:
  assumes "Field old_phone \<in> set (phones r)"
  shows "\<exists>ps qs. phones r = ps @ Field old_phone # qs \<and> Field old_phone \<notin> set ps \<and>
           edit_phone r old_phone new_phone =
             (case Phone new_phone of
                Inl e \<Rightarrow> (Inl e, r\<lparr>phones := ps @ qs\<rparr>)
              | Inr ph \<Rightarrow> (Inr (), r\<lparr>phones := ps @ qs @ [ph]\<rparr>)) \<and>
           (Phone new_phone = Inl (ValueError ''Phone number must be 10 digits long!'')
            \<or> Phone new_phone = Inr (Field new_phone))"
proof -
  from split_list_first[OF assms] obtain ps qs
    where s: "phones r = ps @ Field old_phone # qs" "Field old_phone \<notin> set ps" by blast
  have "edit_phone r old_phone new_phone = add_phone (r\<lparr>phones := ps @ qs\<rparr>) new_phone"
    by (simp add: edit_phone_def find_phone_first[OF s] remove_phone_first[OF s])
  then have "edit_phone r old_phone new_phone =
             (case Phone new_phone of
                Inl e \<Rightarrow> (Inl e, r\<lparr>phones := ps @ qs\<rparr>)
              | Inr ph \<Rightarrow> (Inr (), r\<lparr>phones := ps @ qs @ [ph]\<rparr>))"
    by (simp add: add_phone_def split: sum.splits)
  with s Phone_cases[of new_phone] show ?thesis by blast
qed

theorem edit_phone_found_witness:
  "Field ''1111111111'' \<in> set (phones \<lparr>name = Name ''Alice'', phones = [Field ''1111111111''], birthday = None\<rparr>) \<and>
   edit_phone \<lparr>name = Name ''Alice'', phones = [Field ''1111111111''], birthday = None\<rparr>
      ''1111111111'' ''22''
    = (Inl (ValueError ''Phone number must be 10 digits long!''),
       \<lparr>name = Name ''Alice'', phones = [], birthday = None\<rparr>) \<and>
   edit_phone \<lparr>name = Name ''Alice'', phones = [Field ''1111111111''], birthday = None\<rparr>
      ''1111111111'' ''2222222222''
    = (Inr (), \<lparr>name = Name ''Alice'', phones = [Field ''2222222222''], birthday = None\<rparr>)"
proof -
  let ?r = "\<lparr>name = Name ''Alice'', phones = [Field ''1111111111''], birthday = None\<rparr>"
  have m: "Field ''1111111111'' \<in> set (phones ?r)" by simp
  have p1: "Phone ''22'' = Inl (ValueError ''Phone number must be 10 digits long!'')"
    by (simp add: Phone_def)
  have p2: "Phone ''2222222222'' = Inr (Field ''2222222222'')"
    by (simp add: Phone_def str_isdigit_def isdigit_char_def char_between_def)
  from edit_phone_found[OF m, of "''22''"] edit_phone_found[OF m, of "''2222222222''"] p1 p2 m
  show ?thesis by (auto simp: Cons_eq_append_conv)
qed

text \<open>
  C6.  For every record whose phone list does not contain \<open>old_phone\<close>, \<open>edit_phone\<close> fails
  with the \<open>ValueError\<close> that carries "Phone number is incorrect" and leaves the record,
  and so its phone list, unchanged, whatever \<open>new_phone\<close> is.
\<close>

theorem edit_phone_not_found:
  assumes "Field old_phone \<notin> set (phones r)"
  shows "edit_phone r old_phone new_phone = (Inl (ValueError ''Phone number is incorrect''), r)"
  by (simp add: edit_phone_def find_phone_None[OF assms])

theorem edit_phone_not_found_witness:
  "Field ''9999999999'' \<notin> set (phones \<lparr>name = Name ''Alice'', phones = [Field ''1111111111''], birthday = None\<rparr>) \<and>
   edit_phone \<lparr>name = Name ''Alice'', phones = [Field ''1111111111''], birthday = None\<rparr>
      ''9999999999'' ''2222222222''
    = (Inl (ValueError ''Phone number is incorrect''),
       \<lparr>name = Name ''Alice'', phones = [Field ''1111111111''], birthday = None\<rparr>)"
proof -
  let ?r = "\<lparr>name = Name ''Alice'', phones = [Field ''1111111111''], birthday = None\<rparr>"
  have m: "Field ''9999999999'' \<notin> set (phones ?r)" by simp
  from edit_phone_not_found[OF m, of "''2222222222''"] m show ?thesis by simp
qed

subsection \<open>C7: too few tokens\<close>

text \<open>
  C7.  A handler that is given too few tokens should return the fixed string
  "Give me phone and name please".  The unpacking of \<open>args\<close> raises \<open>ValueError\<close>, not
  \<open>IndexError\<close>, so \<open>input_error\<close> returns the text of that exception instead: no error leaves
  the handler, but the returned string is not the fixed one.
\<close>

theorem add_contact_too_few_tokens:
  "add_contact [''Alice''] []
     = (Inr ''not enough values to unpack (expected at least 2, got 1)'', []) \<and>
   add_contact [] []
     = (Inr ''not enough values to unpack (expected at least 2, got 0)'', []) \<and>
   change_contact [''Alice'', ''1234567890''] []
     = (Inr ''not enough values to unpack (expected 3, got 2)'', []) \<and>
   fst (add_contact [''Alice''] []) \<noteq> Inr ''Give me phone and name please''"
proof -
  have c: "char_of (48::nat) = CHR ''0''" "char_of (49::nat) = CHR ''1''"
    "char_of (50::nat) = CHR ''2''"
    by (simp_all add: char_of_def bit_simps)
  show ?thesis
    by (simp add: add_contact_def add_contact_body_def change_contact_def change_contact_body_def
        input_error_def c)
qed

subsection \<open>C10: \<open>add_contact\<close> with a phone that fails validation\<close>

lemma dict_set_fresh: "k \<notin> fst ` set kvs \<Longrightarrow> dict_set k v kvs = kvs @ [(k, v)]"
  by (induction kvs) auto

lemma find_None_fresh: "find book nm = None \<Longrightarrow> nm \<notin> fst ` set book"
  by (simp add: find_def map_of_eq_None_iff)

lemma write_back_fresh:
  "nm \<notin> fst ` set book \<Longrightarrow> write_back (book @ [(nm, r)]) nm r' = book @ [(nm, r')]"
proof -
  assume a: "nm \<notin> fst ` set book"
  have "map (\<lambda>kv. if fst kv = nm then (fst kv, r') else kv) book = book"
    using a by (induction book) auto
  then show ?thesis by (simp add: write_back_def)
qed

lemma name_Record_init: "field_value (name (Record_init nm)) = nm"
  by (simp add: Record_init_def Name_def)

text \<open>
  C10 (as amended).  When \<open>add_contact\<close> is called with a name absent from the collection and
  a phone string that fails the validation of \<open>Phone\<close>, the new record without phones has
  been inserted when the handler returns; the handler returns the message of the
  validation error when the phone string is not empty, and "Contact added." when it is
  empty, since the handler then skips the phone.
\<close>

theorem add_contact_invalid_phone:
  assumes "find book nm = None" "Phone phone = Inl e"
  shows "add_contact (nm # phone # rest) book =
           (if phone = [] then (Inr ''Contact added.'', book @ [(nm, Record_init nm)])
            else (Inr ''Phone number must be 10 digits long!'', book @ [(nm, Record_init nm)]))"
proof -
  have fresh: "nm \<notin> fst ` set book" using assms(1) by (rule find_None_fresh)
  have b1: "add_record book (Record_init nm) = book @ [(nm, Record_init nm)]"
    by (simp add: add_record_def name_Record_init dict_set_fresh[OF fresh])
  have e: "e = ValueError ''Phone number must be 10 digits long!''"
    using assms(2) by (simp add: Phone_def split: if_splits)
  have ap: "add_phone (Record_init nm) phone = (Inl e, Record_init nm)"
    by (simp add: add_phone_def assms(2))
  show ?thesis
    by (simp add: add_contact_def add_contact_body_def assms(1) b1 ap
        write_back_fresh[OF fresh] e input_error_def)
qed

theorem add_contact_invalid_phone_witness:
  "find [] ''Bob'' = None \<and>
   Phone ''12ab'' = Inl (ValueError ''Phone number must be 10 digits long!'') \<and>
   add_contact [''Bob'', ''12ab''] []
     = (Inr ''Phone number must be 10 digits long!'', [(''Bob'', Record_init ''Bob'')])"
proof -
  have f: "find [] ''Bob'' = None" by (simp add: find_def)
  have p: "Phone ''12ab'' = Inl (ValueError ''Phone number must be 10 digits long!'')"
    by (simp add: Phone_def)
  from add_contact_invalid_phone[OF f p, of "[]"] f p show ?thesis by simp
qed

text \<open>
  The empty string fails the validation of \<open>Phone\<close>, and the handler returns
  "Contact added." for it.
\<close>

theorem add_contact_empty_phone:
  "find [] ''Bob'' = None \<and>
   Phone '''' = Inl (ValueError ''Phone number must be 10 digits long!'') \<and>
   add_contact [''Bob'', ''''] [] = (Inr ''Contact added.'', [(''Bob'', Record_init ''Bob'')])"
  by (simp add: find_def Phone_def str_isdigit_def add_contact_def add_contact_body_def
      add_record_def name_Record_init input_error_def)

subsection \<open>C8: every record is stored under its own name\<close>

lemma map_of_dict_set: "map_of (dict_set k v kvs) = (map_of kvs)(k \<mapsto> v)"
  by (induction kvs) auto

lemma key_is_name_dict_set:
  "key_is_name book \<Longrightarrow> field_value (name r) = k \<Longrightarrow> key_is_name (dict_set k r book)"
  unfolding key_is_name_def by (induction book) auto

lemma key_is_name_dict_del: "key_is_name book \<Longrightarrow> key_is_name (dict_del k book)"
  unfolding key_is_name_def dict_del_def by (induction book) auto

lemma keys_dict_set: "fst ` set (dict_set k v kvs) = insert k (fst ` set kvs)"
  by (induction kvs) force+

lemma distinct_dict_set:
  "distinct (map fst kvs) \<Longrightarrow> distinct (map fst (dict_set k v kvs))"
proof (induction kvs)
  case Nil
  then show ?case by simp
next
  case (Cons kv kvs)
  have keys: "fst ` set (dict_set k v kvs) = insert k (fst ` set kvs)"
    by (rule keys_dict_set)
  show ?case
  proof (cases "fst kv = k")
    case True
    then show ?thesis using Cons.prems by (cases kv) simp
  next
    case False
    then show ?thesis using Cons keys by (cases kv) auto
  qed
qed

lemma distinct_dict_del:
  "distinct (map fst kvs) \<Longrightarrow> distinct (map fst (dict_del k kvs))"
  unfolding dict_del_def by (induction kvs) auto

lemma apply_operation_inv:
  assumes "key_is_name book \<and> distinct (map fst book)"
  shows "key_is_name (apply_operation book op) \<and> distinct (map fst (apply_operation book op))"
proof (cases op)
  case (Add_record r)
  then show ?thesis using assms
    by (simp add: add_record_def key_is_name_dict_set distinct_dict_set)
next
  case (Find nm)
  then show ?thesis using assms by simp
next
  case (Delete nm)
  then show ?thesis using assms
    by (simp add: delete_def key_is_name_dict_del distinct_dict_del)
next
  case (Get_upcoming_birthdays today days)
  then show ?thesis using assms by simp
qed

lemma reachable_inv:
  "reachable book \<Longrightarrow> key_is_name book \<and> distinct (map fst book)"
proof (induction rule: reachable.induct)
  case reachable_empty
  show ?case by (simp add: key_is_name_def)
next
  case (reachable_step book op)
  then show ?case by (intro apply_operation_inv)
qed

text \<open>
  C8.  In every state reachable from the empty collection through \<open>add_record\<close>, \<open>find\<close>,
  \<open>delete\<close> and \<open>get_upcoming_birthdays\<close>, every stored record is stored under its own name
  (and no key occurs twice), so \<open>find\<close> returns only records of the name asked for;
  \<open>add_record\<close> stores the record under its own name, replacing what was stored there and
  leaving the other keys alone, and \<open>add_record\<close> and \<open>delete\<close> lead to reachable states.
\<close>

theorem reachable_key_is_name:
  assumes "reachable book"
  shows "key_is_name book \<and> distinct (map fst book) \<and>
         (\<forall>nm r. find book nm = Some r \<longrightarrow> field_value (name r) = nm) \<and>
         (\<forall>r. find (add_record book r) (field_value (name r)) = Some r \<and>
              (\<forall>nm. nm \<noteq> field_value (name r) \<longrightarrow> find (add_record book r) nm = find book nm) \<and>
              reachable (add_record book r)) \<and>
         (\<forall>nm. reachable (delete book nm) \<and> find (delete book nm) nm = None)"
proof -
  from reachable_inv[OF assms] have inv: "key_is_name book" "distinct (map fst book)"
    by simp_all
  have 1: "field_value (name r) = nm" if "find book nm = Some r" for nm r
  proof -
    from that have "(nm, r) \<in> set book" by (simp add: find_def map_of_SomeD)
    with inv(1) show ?thesis by (auto simp: key_is_name_def list_all_iff)
  qed
  have 2: "reachable (add_record book r)" for r
    using reachable_step[OF assms, of "Add_record r"] by simp
  have 3: "reachable (delete book nm)" for nm
    using reachable_step[OF assms, of "Delete nm"] by simp
  have 4: "find (delete book nm) nm = None" for nm
    by (auto simp: delete_def find_def dict_del_def map_of_eq_None_iff)
  have 5: "find (add_record book r) (field_value (name r)) = Some r" for r
    by (simp add: find_def add_record_def map_of_dict_set)
  have 6: "find (add_record book r) nm = find book nm" if "nm \<noteq> field_value (name r)" for nm r
    using that by (simp add: find_def add_record_def map_of_dict_set)
  show ?thesis using inv 1 2 3 4 5 6 by blast
qed

theorem reachable_key_is_name_witness:
  "reachable [(''Bob'', Record_init ''Bob'')] \<and> key_is_name [(''Bob'', Record_init ''Bob'')] \<and>
   find (add_record [(''Bob'', Record_init ''Bob'')]
           \<lparr>name = Name ''Bob'', phones = [Field ''1234567890''], birthday = None\<rparr>) ''Bob''
     = Some \<lparr>name = Name ''Bob'', phones = [Field ''1234567890''], birthday = None\<rparr>"
proof -
  have r: "reachable [(''Bob'', Record_init ''Bob'')]"
    using reachable_step[OF reachable_empty, of "Add_record (Record_init ''Bob'')"]
    by (simp add: add_record_def name_Record_init)
  let ?r = "\<lparr>name = Name ''Bob'', phones = [Field ''1234567890''], birthday = None\<rparr>"
  from reachable_key_is_name[OF r]
  have "key_is_name [(''Bob'', Record_init ''Bob'')]"
    and "find (add_record [(''Bob'', Record_init ''Bob'')] ?r) (field_value (name ?r)) = Some ?r"
    by blast+
  with r show ?thesis by (simp add: Name_def)
qed

subsection \<open>C1 and C9: \<open>get_upcoming_birthdays\<close>\<close>

lemma weekend_bound:
  fixes n :: int
  assumes "n \<le> 3652059" "5 \<le> (n + 6) mod 7"
  shows "n + (7 - (n + 6) mod 7) \<le> 3652059"
proof -
  define q where "q = (n + 6) div 7"
  define m where "m = (n + 6) mod 7"
  have e: "n + 6 = 7 * q + m" by (simp add: q_def m_def)
  have m: "5 \<le> m" "m < 7" using assms(2) by (simp_all add: m_def)
  have "q \<le> 3652065 div 7" unfolding q_def using assms(1) by (intro zdiv_mono1) simp_all
  then have "q \<le> 521723" by simp
  then consider "q = 521723" | "q \<le> 521722" by linarith
  then have "n + (7 - m) \<le> 3652059"
  proof cases
    case 1
    then show ?thesis using e m assms(1) by linarith
  next
    case 2
    then show ?thesis using e m by linarith
  qed
  then show ?thesis by (simp add: m_def)
qed

lemma adjust_for_weekend_valid:
  assumes "valid_date p"
  shows "adjust_for_weekend p = Inr (spec_adjusted p) \<and> valid_date (spec_adjusted p) \<and>
         weekday (spec_adjusted p) \<le> 4"
proof (cases "5 \<le> weekday p")
  case False
  then show ?thesis using assms by (simp add: adjust_for_weekend_def spec_adjusted_def)
next
  case True
  have up: "toordinal p \<le> 3652059" using toordinal_upper[OF assms] by (simp add: MAXORDINAL_def)
  have b: "toordinal p + (7 - weekday p) \<le> MAXORDINAL"
    using weekend_bound[OF up] True by (simp add: weekday_def MAXORDINAL_def)
  have lo: "0 < toordinal p" using toordinal_lower[OF assms] by simp
  from True weekday_range[of p] consider (sat) "weekday p = 5" | (sun) "weekday p = 6" by linarith
  then show ?thesis
  proof cases
    case sat
    have f: "toordinal p + int 2 \<le> MAXORDINAL" using b sat by simp
    from forward_props[OF assms f] have fp: "valid_date (forward 2 p)"
      "toordinal (forward 2 p) = toordinal p + 2" by simp_all
    have "(toordinal p + 6) mod 7 = 5" using sat by (simp add: weekday_def)
    then have "(toordinal p + 6 + 2) mod 7 = 0" by presburger
    then have w: "weekday (forward 2 p) = 0" using fp(2) by (simp add: weekday_def algebra_simps)
    have "adjust_for_weekend p = Inr (forward 2 p)"
      using sat f lo by (simp add: adjust_for_weekend_def find_next_weekday_def date_add_def Let_def)
    then show ?thesis using sat fp w by (simp add: spec_adjusted_def)
  next
    case sun
    have f: "toordinal p + int 1 \<le> MAXORDINAL" using b sun by simp
    from forward_props[OF assms f] have fp: "valid_date (forward 1 p)"
      "toordinal (forward 1 p) = toordinal p + 1" by simp_all
    have "(toordinal p + 6) mod 7 = 6" using sun by (simp add: weekday_def)
    then have "(toordinal p + 6 + 1) mod 7 = 0" by presburger
    then have w: "weekday (forward 1 p) = 0" using fp(2) by (simp add: weekday_def algebra_simps)
    have "adjust_for_weekend p = Inr (forward 1 p)"
      using sun f lo by (simp add: adjust_for_weekend_def find_next_weekday_def date_add_def Let_def)
    then show ?thesis using sun fp w by (simp add: spec_adjusted_def)
  qed
qed

lemma project_this_year:
  assumes "valid_date today" "valid_date bd"
  shows "replace_year bd (year today) =
           (if day bd \<le> days_in_month (year today) (month bd)
            then Inr \<lparr>year = year today, month = month bd, day = day bd\<rparr>
            else Inl (ValueError ''day is out of range for month''))"
  using assms by (simp add: replace_year_def make_date_def valid_date_def)

lemma project_next_year:
  assumes "valid_date today" "valid_date bd"
  shows "\<exists>msg. replace_year \<lparr>year = year today, month = month bd, day = day bd\<rparr> (year today + 1) =
           (if year today + 1 \<le> MAXYEAR \<and> day bd \<le> days_in_month (year today + 1) (month bd)
            then Inr \<lparr>year = year today + 1, month = month bd, day = day bd\<rparr>
            else Inl (ValueError msg))"
  using assms by (simp add: replace_year_def make_date_def valid_date_def MINYEAR_def)

lemma rolled_iff:
  "date_less \<lparr>year = year today, month = month bd, day = day bd\<rparr> today \<longleftrightarrow> spec_rolled today bd"
  by (simp add: date_less_def spec_rolled_def)

lemma projected_valid:
  assumes "valid_date today" "valid_date bd" "projection_exists today bd"
  shows "valid_date (spec_projected today bd)"
  using assms by (simp add: valid_date_def projection_exists_def spec_projected_def MINYEAR_def)

lemma upcoming_step_None: "birthday r = None \<Longrightarrow> upcoming_step today days r acc = Inr acc"
  by (simp add: upcoming_step_def)

lemma upcoming_step_ok:
  assumes "valid_date today" "birthday r = Some b" "valid_date (field_value b)"
    "projection_exists today (field_value b)"
  shows "upcoming_step today days r acc =
           Inr (acc @ map spec_adjusted
                        (filter (spec_in_window today days) [spec_projected today (field_value b)]))"
proof -
  let ?bd = "field_value b"
  let ?p0 = "\<lparr>year = year today, month = month ?bd, day = day ?bd\<rparr>"
  have 1: "replace_year ?bd (year today) = Inr ?p0"
    using project_this_year[OF assms(1,3)] assms(4) by (simp add: projection_exists_def)
  have 2: "(if date_less ?p0 today then replace_year ?p0 (year today + 1) else Inr ?p0)
           = Inr (spec_projected today ?bd)"
  proof (cases "spec_rolled today ?bd")
    case True
    from project_next_year[OF assms(1,3)] obtain msg where
      "replace_year ?p0 (year today + 1) =
           (if year today + 1 \<le> MAXYEAR \<and> day ?bd \<le> days_in_month (year today + 1) (month ?bd)
            then Inr \<lparr>year = year today + 1, month = month ?bd, day = day ?bd\<rparr>
            else Inl (ValueError msg))" by blast
    then show ?thesis using True assms(4)
      by (simp add: rolled_iff projection_exists_def spec_projected_def)
  next
    case False
    then show ?thesis by (simp add: rolled_iff spec_projected_def)
  qed
  have 3: "adjust_for_weekend (spec_projected today ?bd) = Inr (spec_adjusted (spec_projected today ?bd))"
    using adjust_for_weekend_valid[OF projected_valid[OF assms(1,3,4)]] by simp
  show ?thesis
    unfolding upcoming_step_def by (simp add: assms(2) 1 2 3 spec_in_window_def)
qed

lemma upcoming_step_fail:
  assumes "valid_date today" "birthday r = Some b" "valid_date (field_value b)"
    "\<not> projection_exists today (field_value b)"
  shows "\<exists>msg. upcoming_step today days r acc = Inl (ValueError msg)"
proof -
  let ?bd = "field_value b"
  let ?p0 = "\<lparr>year = year today, month = month ?bd, day = day ?bd\<rparr>"
  show ?thesis
  proof (cases "day ?bd \<le> days_in_month (year today) (month ?bd)")
    case False
    then have "replace_year ?bd (year today) = Inl (ValueError ''day is out of range for month'')"
      using project_this_year[OF assms(1,3)] by simp
    then show ?thesis unfolding upcoming_step_def by (simp add: assms(2))
  next
    case True
    then have 1: "replace_year ?bd (year today) = Inr ?p0"
      using project_this_year[OF assms(1,3)] by simp
    from True assms(4) have r: "spec_rolled today ?bd"
      and n: "\<not> (year today + 1 \<le> MAXYEAR \<and> day ?bd \<le> days_in_month (year today + 1) (month ?bd))"
      by (auto simp: projection_exists_def)
    from project_next_year[OF assms(1,3)] n obtain msg where
      2: "replace_year ?p0 (year today + 1) = Inl (ValueError msg)" by auto
    show ?thesis unfolding upcoming_step_def by (simp add: assms(2) 1 2 r rolled_iff)
  qed
qed

lemma birthday_dates_Cons:
  "birthday_dates (r # rs) =
     (case birthday r of None \<Rightarrow> [] | Some b \<Rightarrow> [field_value b]) @ birthday_dates rs"
  by (simp add: birthday_dates_def)

lemma upcoming_loop_ok:
  assumes "valid_date today"
  shows "\<forall>bd \<in> set (birthday_dates rs). valid_date bd \<and> projection_exists today bd \<Longrightarrow>
         upcoming_loop today days rs acc =
           Inr (acc @ map spec_adjusted (filter (spec_in_window today days)
                                           (map (spec_projected today) (birthday_dates rs))))"
proof (induction rs arbitrary: acc)
  case Nil
  then show ?case by (simp add: birthday_dates_def)
next
  case (Cons r rs)
  have rest: "\<forall>bd \<in> set (birthday_dates rs). valid_date bd \<and> projection_exists today bd"
    using Cons.prems by (simp add: birthday_dates_Cons)
  show ?case
  proof (cases "birthday r")
    case None
    then show ?thesis using Cons.IH[OF rest] by (simp add: upcoming_step_None birthday_dates_Cons)
  next
    case (Some b)
    then have v: "valid_date (field_value b)" "projection_exists today (field_value b)"
      using Cons.prems by (simp_all add: birthday_dates_Cons)
    show ?thesis
      using Cons.IH[OF rest] upcoming_step_ok[OF assms Some v]
      by (simp add: birthday_dates_Cons Some)
  qed
qed

lemma upcoming_loop_fail:
  assumes "valid_date today"
  shows "\<forall>bd \<in> set (birthday_dates rs). valid_date bd \<Longrightarrow>
         \<exists>bd \<in> set (birthday_dates rs). \<not> projection_exists today bd \<Longrightarrow>
         \<exists>msg. upcoming_loop today days rs acc = Inl (ValueError msg)"
proof (induction rs arbitrary: acc)
  case Nil
  then show ?case by (simp add: birthday_dates_def)
next
  case (Cons r rs)
  have rest: "\<forall>bd \<in> set (birthday_dates rs). valid_date bd"
    using Cons.prems(1) by (simp add: birthday_dates_Cons)
  show ?case
  proof (cases "birthday r")
    case None
    then have "\<exists>bd \<in> set (birthday_dates rs). \<not> projection_exists today bd"
      using Cons.prems(2) by (simp add: birthday_dates_Cons)
    from Cons.IH[OF rest this] show ?thesis using None by (simp add: upcoming_step_None)
  next
    case (Some b)
    then have v: "valid_date (field_value b)"
      using Cons.prems(1) by (simp add: birthday_dates_Cons)
    show ?thesis
    proof (cases "projection_exists today (field_value b)")
      case False
      from upcoming_step_fail[OF assms Some v False, of days acc] obtain msg
        where "upcoming_step today days r acc = Inl (ValueError msg)" by blast
      then show ?thesis by simp
    next
      case True
      then have "\<exists>bd \<in> set (birthday_dates rs). \<not> projection_exists today bd"
        using Cons.prems(2) Some by (simp add: birthday_dates_Cons)
      from Cons.IH[OF rest this] show ?thesis
        using upcoming_step_ok[OF assms Some v True] by simp
    qed
  qed
qed

lemma spec_adjusted_monday:
  assumes "valid_date p"
  shows "(weekday p \<le> 4 \<longrightarrow> spec_adjusted p = p) \<and>
         (5 \<le> weekday p \<longrightarrow> weekday (spec_adjusted p) = 0 \<and>
                               date_sub (spec_adjusted p) p = 7 - weekday p)"
proof (cases "5 \<le> weekday p")
  case False
  then show ?thesis by (simp add: spec_adjusted_def)
next
  case True
  have up: "toordinal p \<le> 3652059" using toordinal_upper[OF assms] by (simp add: MAXORDINAL_def)
  have b: "toordinal p + (7 - weekday p) \<le> MAXORDINAL"
    using weekend_bound[OF up] True by (simp add: weekday_def MAXORDINAL_def)
  from True weekday_range[of p] consider (sat) "weekday p = 5" | (sun) "weekday p = 6" by linarith
  then show ?thesis
  proof cases
    case sat
    have f: "toordinal p + int 2 \<le> MAXORDINAL" using b sat by simp
    from forward_props[OF assms f] have "toordinal (forward 2 p) = toordinal p + 2" by simp
    moreover have "weekday (spec_adjusted p) \<le> 4" using adjust_for_weekend_valid[OF assms] by simp
    moreover have "0 \<le> weekday (spec_adjusted p)" by (simp add: weekday_range)
    moreover have "(toordinal p + 6) mod 7 = 5" using sat by (simp add: weekday_def)
    then have "(toordinal p + 2 + 6) mod 7 = 0" by presburger
    ultimately show ?thesis using sat by (simp add: spec_adjusted_def date_sub_def weekday_def)
  next
    case sun
    have f: "toordinal p + int 1 \<le> MAXORDINAL" using b sun by simp
    from forward_props[OF assms f] have "toordinal (forward 1 p) = toordinal p + 1" by simp
    moreover have "(toordinal p + 6) mod 7 = 6" using sun by (simp add: weekday_def)
    then have "(toordinal p + 1 + 6) mod 7 = 0" by presburger
    ultimately show ?thesis using sun by (simp add: spec_adjusted_def date_sub_def weekday_def)
  qed
qed

lemma birthday_dates_member:
  assumes "r \<in> set rs" "birthday r = Some b"
  shows "field_value b \<in> set (birthday_dates rs)"
  using assms by (induction rs) (auto simp: birthday_dates_Cons)

text \<open>
  C1.  \<open>get_upcoming_birthdays\<close> projects the birthday of every record that has one onto the
  current year, or onto the next year when the day is already past; it tests the days
  until the projected, unadjusted date against \<open>[0, days]\<close>, and it collects, in the order
  of the records, the weekend-adjusted date of each projected date that passes the test,
  so that the adjustment has no part in the test.  The adjusted date is the date itself
  from Monday to Friday and the following Monday on Saturday and Sunday.  The call returns
  this list exactly when all the projections exist.
\<close>

theorem get_upcoming_birthdays_collects:
  assumes "valid_date today" "\<forall>bd \<in> set (birthday_dates (map snd book)). valid_date bd"
  shows "(get_upcoming_birthdays book today days = Inr res \<longleftrightarrow>
            (\<forall>bd \<in> set (birthday_dates (map snd book)). projection_exists today bd) \<and>
            res = map spec_adjusted
                    (filter (spec_in_window today days)
                       (map (spec_projected today) (birthday_dates (map snd book))))) \<and>
         (\<forall>p. valid_date p \<longrightarrow>
            adjust_for_weekend p = Inr (spec_adjusted p) \<and>
            (weekday p \<le> 4 \<longrightarrow> spec_adjusted p = p) \<and>
            (5 \<le> weekday p \<longrightarrow> weekday (spec_adjusted p) = 0 \<and>
                                  date_sub (spec_adjusted p) p = 7 - weekday p))"
proof -
  let ?bds = "birthday_dates (map snd book)"
  have 1: "get_upcoming_birthdays book today days = Inr res \<longleftrightarrow>
            (\<forall>bd \<in> set ?bds. projection_exists today bd) \<and>
            res = map spec_adjusted
                    (filter (spec_in_window today days) (map (spec_projected today) ?bds))"
  proof (cases "\<forall>bd \<in> set ?bds. projection_exists today bd")
    case True
    then have "\<forall>bd \<in> set ?bds. valid_date bd \<and> projection_exists today bd"
      using assms(2) by blast
    from upcoming_loop_ok[OF assms(1) this, of days "[]"] True show ?thesis
      by (auto simp: get_upcoming_birthdays_def)
  next
    case False
    then have "\<exists>bd \<in> set ?bds. \<not> projection_exists today bd" by blast
    from upcoming_loop_fail[OF assms(1,2) this, of days "[]"] False show ?thesis
      by (auto simp: get_upcoming_birthdays_def)
  qed
  have 2: "adjust_for_weekend p = Inr (spec_adjusted p) \<and>
            (weekday p \<le> 4 \<longrightarrow> spec_adjusted p = p) \<and>
            (5 \<le> weekday p \<longrightarrow> weekday (spec_adjusted p) = 0 \<and>
                                  date_sub (spec_adjusted p) p = 7 - weekday p)"
    if "valid_date p" for p
    using adjust_for_weekend_valid[OF that] spec_adjusted_monday[OF that] by blast
  from 1 2 show ?thesis by blast
qed

text \<open>
  On Saturday 28 December 2024: a birthday on 28 December is collected as Monday
  30 December, also with \<open>days = 0\<close>, and a birthday on 1 January is collected with
  \<open>days = 7\<close> as Wednesday 1 January 2025.
\<close>

lemma ord_28_12_2024: "toordinal \<lparr>year = 2024, month = 12, day = 28\<rparr> = 739248"
  by (simp add: toordinal_def days_before_year_def days_before_month_def DAYS_BEFORE_MONTH_def
      is_leap_def)

lemma ord_01_01_2025: "toordinal \<lparr>year = 2025, month = 1, day = 1\<rparr> = 739252"
  by (simp add: toordinal_def days_before_year_def days_before_month_def DAYS_BEFORE_MONTH_def
      is_leap_def)

theorem get_upcoming_birthdays_collects_witness:
  "valid_date \<lparr>year = 2024, month = 12, day = 28\<rparr> \<and>
   get_upcoming_birthdays
     [(''Alice'', \<lparr>name = Name ''Alice'', phones = [],
                   birthday = Some (Field \<lparr>year = 2000, month = 12, day = 28\<rparr>)\<rparr>),
      (''Bob'', \<lparr>name = Name ''Bob'', phones = [],
                 birthday = Some (Field \<lparr>year = 2000, month = 1, day = 1\<rparr>)\<rparr>),
      (''Carol'', \<lparr>name = Name ''Carol'', phones = [], birthday = None\<rparr>)]
     \<lparr>year = 2024, month = 12, day = 28\<rparr> 0
   = Inr [\<lparr>year = 2024, month = 12, day = 30\<rparr>] \<and>
   get_upcoming_birthdays
     [(''Alice'', \<lparr>name = Name ''Alice'', phones = [],
                   birthday = Some (Field \<lparr>year = 2000, month = 12, day = 28\<rparr>)\<rparr>),
      (''Bob'', \<lparr>name = Name ''Bob'', phones = [],
                 birthday = Some (Field \<lparr>year = 2000, month = 1, day = 1\<rparr>)\<rparr>),
      (''Carol'', \<lparr>name = Name ''Carol'', phones = [], birthday = None\<rparr>)]
     \<lparr>year = 2024, month = 12, day = 28\<rparr> 7
   = Inr [\<lparr>year = 2024, month = 12, day = 30\<rparr>, \<lparr>year = 2025, month = 1, day = 1\<rparr>]"
proof -
  let ?today = "\<lparr>year = 2024, month = 12, day = 28\<rparr>"
  let ?book = "[(''Alice'', \<lparr>name = Name ''Alice'', phones = [],
                   birthday = Some (Field \<lparr>year = 2000, month = 12, day = 28\<rparr>)\<rparr>),
      (''Bob'', \<lparr>name = Name ''Bob'', phones = [],
                 birthday = Some (Field \<lparr>year = 2000, month = 1, day = 1\<rparr>)\<rparr>),
      (''Carol'', \<lparr>name = Name ''Carol'', phones = [], birthday = None\<rparr>)]"
  have v: "valid_date ?today"
    by (simp add: valid_date_def MINYEAR_def MAXYEAR_def days_in_month_def)
  have bs: "birthday_dates (map snd ?book)
              = [\<lparr>year = 2000, month = 12, day = 28\<rparr>, \<lparr>year = 2000, month = 1, day = 1\<rparr>]"
    by (simp add: birthday_dates_def)
  have vb: "\<forall>bd \<in> set (birthday_dates (map snd ?book)). valid_date bd"
    unfolding bs by (simp add: valid_date_def MINYEAR_def MAXYEAR_def days_in_month_def)
  have pe: "\<forall>bd \<in> set (birthday_dates (map snd ?book)). projection_exists ?today bd"
    unfolding bs
    by (simp add: projection_exists_def spec_rolled_def MAXYEAR_def days_in_month_def)
  have pr: "map (spec_projected ?today) (birthday_dates (map snd ?book))
              = [\<lparr>year = 2024, month = 12, day = 28\<rparr>, \<lparr>year = 2025, month = 1, day = 1\<rparr>]"
    unfolding bs by (simp add: spec_projected_def spec_rolled_def)
  have a1: "spec_adjusted \<lparr>year = 2024, month = 12, day = 28\<rparr> = \<lparr>year = 2024, month = 12, day = 30\<rparr>"
    by (simp add: spec_adjusted_def weekday_def ord_28_12_2024 eval_nat_numeral next_day_def
        days_in_month_def)
  have a2: "spec_adjusted \<lparr>year = 2025, month = 1, day = 1\<rparr> = \<lparr>year = 2025, month = 1, day = 1\<rparr>"
    by (simp add: spec_adjusted_def weekday_def ord_01_01_2025)
  have r0: "[\<lparr>year = 2024, month = 12, day = 30\<rparr>] =
            map spec_adjusted (filter (spec_in_window ?today 0)
               (map (spec_projected ?today) (birthday_dates (map snd ?book))))"
    unfolding pr
    by (simp add: spec_in_window_def date_sub_def ord_28_12_2024 ord_01_01_2025 a1)
  have r7: "[\<lparr>year = 2024, month = 12, day = 30\<rparr>, \<lparr>year = 2025, month = 1, day = 1\<rparr>] =
            map spec_adjusted (filter (spec_in_window ?today 7)
               (map (spec_projected ?today) (birthday_dates (map snd ?book))))"
    unfolding pr
    by (simp add: spec_in_window_def date_sub_def ord_28_12_2024 ord_01_01_2025 a1 a2)
  from get_upcoming_birthdays_collects[OF v vb, of 0 "[\<lparr>year = 2024, month = 12, day = 30\<rparr>]"]
    pe r0
  have g0: "get_upcoming_birthdays ?book ?today 0 = Inr [\<lparr>year = 2024, month = 12, day = 30\<rparr>]"
    by blast
  from get_upcoming_birthdays_collects[OF v vb, of 7
      "[\<lparr>year = 2024, month = 12, day = 30\<rparr>, \<lparr>year = 2025, month = 1, day = 1\<rparr>]"]
    pe r7
  have g7: "get_upcoming_birthdays ?book ?today 7
            = Inr [\<lparr>year = 2024, month = 12, day = 30\<rparr>, \<lparr>year = 2025, month = 1, day = 1\<rparr>]"
    by blast
  from v g0 g7 show ?thesis by blast
qed

text \<open>
  C9.  When the collection holds a record whose birthday is 29 February and the current
  year is not a leap year, \<open>get_upcoming_birthdays\<close> raises the \<open>ValueError\<close> of a date
  construction instead of returning a list.
\<close>

theorem get_upcoming_birthdays_leap_day:
  assumes "valid_date today" "\<forall>bd \<in> set (birthday_dates (map snd book)). valid_date bd"
    "(nm, r) \<in> set book" "birthday r = Some b"
    "month (field_value b) = 2" "day (field_value b) = 29" "\<not> is_leap (year today)"
  shows "\<exists>msg. get_upcoming_birthdays book today days = Inl (ValueError msg)"
proof -
  have "r \<in> set (map snd book)" using assms(3) by force
  then have m: "field_value b \<in> set (birthday_dates (map snd book))"
    using assms(4) by (rule birthday_dates_member)
  have "\<not> projection_exists today (field_value b)"
    using assms(5,6,7) by (simp add: projection_exists_def days_in_month_def)
  with m have "\<exists>bd \<in> set (birthday_dates (map snd book)). \<not> projection_exists today bd" by blast
  from upcoming_loop_fail[OF assms(1,2) this] show ?thesis
    by (simp add: get_upcoming_birthdays_def)
qed

theorem get_upcoming_birthdays_leap_day_witness:
  "valid_date \<lparr>year = 2025, month = 2, day = 25\<rparr> \<and> \<not> is_leap 2025 \<and>
   valid_date \<lparr>year = 2000, month = 2, day = 29\<rparr> \<and>
   get_upcoming_birthdays
     [(''Ann'', \<lparr>name = Name ''Ann'', phones = [],
                 birthday = Some (Field \<lparr>year = 2000, month = 2, day = 29\<rparr>)\<rparr>)]
     \<lparr>year = 2025, month = 2, day = 25\<rparr> 7
   = Inl (ValueError ''day is out of range for month'')"
proof -
  let ?today = "\<lparr>year = 2025, month = 2, day = 25\<rparr>"
  let ?r = "\<lparr>name = Name ''Ann'', phones = [],
                 birthday = Some (Field \<lparr>year = 2000, month = 2, day = 29\<rparr>)\<rparr>"
  have v: "valid_date ?today"
    by (simp add: valid_date_def MINYEAR_def MAXYEAR_def days_in_month_def)
  have l: "\<not> is_leap (year ?today)" by (simp add: is_leap_def)
  have vb: "valid_date \<lparr>year = 2000, month = 2, day = 29\<rparr>"
    by (simp add: valid_date_def MINYEAR_def MAXYEAR_def days_in_month_def is_leap_def)
  then have vbs: "\<forall>bd \<in> set (birthday_dates (map snd [(''Ann'', ?r)])). valid_date bd"
    by (simp add: birthday_dates_def)
  have m: "(''Ann'', ?r) \<in> set [(''Ann'', ?r)]" by simp
  have b: "birthday ?r = Some (Field \<lparr>year = 2000, month = 2, day = 29\<rparr>)" by simp
  from get_upcoming_birthdays_leap_day[OF v vbs m b _ _ l, of 7]
  obtain msg where e: "get_upcoming_birthdays [(''Ann'', ?r)] ?today 7 = Inl (ValueError msg)"
    by auto
  have "get_upcoming_birthdays [(''Ann'', ?r)] ?today 7
        = Inl (ValueError ''day is out of range for month'')"
    using e
    by (simp add: get_upcoming_birthdays_def upcoming_step_def replace_year_def make_date_def
        MINYEAR_def MAXYEAR_def days_in_month_def is_leap_def)
  with v l vb show ?thesis by simp
qed

subsection \<open>C4: \<open>Birthday\<close>\<close>

lemma match_d_2:
  "match_d (c0 # c1 # r) =
     (if day_text c0 c1 then [([c0, c1], r)] else []) @
     (if cp_between (CHR ''1'') (CHR ''9'') c0 then [([c0], c1 # r)] else [])"
  by (auto simp: match_d_def lit1_def lit2_def day_text_def cp_between_def code_point_def)

lemma match_m_2:
  "match_m (c0 # c1 # r) =
     (if month_text c0 c1 then [([c0, c1], r)] else []) @
     (if cp_between (CHR ''1'') (CHR ''9'') c0 then [([c0], c1 # r)] else [])"
  by (auto simp: match_m_def lit1_def lit2_def month_text_def cp_between_def code_point_def)

lemma accepted_text_10:
  "accepted_text [c0, c1, c2, c3, c4, c5, c6, c7, c8, c9] \<longleftrightarrow>
     day_text c0 c1 \<and> c2 = code_point (CHR ''.'') \<and> month_text c3 c4 \<and>
     c5 = code_point (CHR ''.'') \<and>
     re_digit c6 \<and> re_digit c7 \<and> re_digit c8 \<and> re_digit c9"
  by (simp add: accepted_text_def)

lemma re_match_10_accepted:
  assumes "accepted_text [c0, c1, c2, c3, c4, c5, c6, c7, c8, c9]"
  shows "re_match_dmY [c0, c1, c2, c3, c4, c5, c6, c7, c8, c9]
           = Some ([c0, c1], [c3, c4], [c6, c7, c8, c9], [])"
  using assms
  by (simp add: accepted_text_10 re_match_dmY_def match_d_2 match_m_2 match_dot_def match_Y_def)

lemma match_d_sound:
  assumes "(d, r) \<in> set (match_d s)"
  shows "s = d @ r \<and> (length d = 1 \<or> (length d = 2 \<and> day_text (d ! 0) (d ! 1)))"
proof (cases s)
  case Nil
  then show ?thesis using assms by (simp add: match_d_def lit1_def lit2_def)
next
  case (Cons a s')
  show ?thesis
  proof (cases s')
    case Nil
    then show ?thesis using assms Cons
      by (auto simp: match_d_def lit1_def lit2_def split: if_splits)
  next
    case (Cons b s'')
    then show ?thesis using assms \<open>s = a # s'\<close>
      by (auto simp: match_d_2 split: if_splits)
  qed
qed

lemma match_m_sound:
  assumes "(m, r) \<in> set (match_m s)"
  shows "s = m @ r \<and> (length m = 1 \<or> (length m = 2 \<and> month_text (m ! 0) (m ! 1)))"
proof (cases s)
  case Nil
  then show ?thesis using assms by (simp add: match_m_def lit1_def lit2_def)
next
  case (Cons a s')
  show ?thesis
  proof (cases s')
    case Nil
    then show ?thesis using assms Cons
      by (auto simp: match_m_def lit1_def lit2_def split: if_splits)
  next
    case (Cons b s'')
    then show ?thesis using assms \<open>s = a # s'\<close>
      by (auto simp: match_m_2 split: if_splits)
  qed
qed

lemma match_dot_sound: "r \<in> set (match_dot s) \<Longrightarrow> s = code_point (CHR ''.'') # r"
  by (auto simp: match_dot_def split: list.splits if_splits)

lemma match_Y_sound:
  "(y, r) \<in> set (match_Y s) \<Longrightarrow>
     s = y @ r \<and> length y = 4 \<and> re_digit (y ! 0) \<and> re_digit (y ! 1) \<and> re_digit (y ! 2)
     \<and> re_digit (y ! 3)"
  by (auto simp: match_Y_def split: list.splits if_splits)

lemma re_match_sound:
  assumes "re_match_dmY s = Some (d, m, y, rest)"
  shows "s = d @ code_point (CHR ''.'') # m @ code_point (CHR ''.'') # y @ rest \<and>
         (length d = 1 \<or> (length d = 2 \<and> day_text (d ! 0) (d ! 1))) \<and>
         (length m = 1 \<or> (length m = 2 \<and> month_text (m ! 0) (m ! 1))) \<and>
         length y = 4 \<and> re_digit (y ! 0) \<and> re_digit (y ! 1) \<and> re_digit (y ! 2) \<and> re_digit (y ! 3)"
proof -
  let ?all = "concat (map (\<lambda>(d, r1). concat (map (\<lambda>r2. concat (map (\<lambda>(m, r3).
             concat (map (\<lambda>r4. map (\<lambda>(y, r5). (d, m, y, r5)) (match_Y r4)) (match_dot r3)))
             (match_m r2))) (match_dot r1))) (match_d s))"
  from assms have "(d, m, y, rest) \<in> set ?all"
    unfolding re_match_dmY_def by (cases ?all) (simp_all del: set_concat)
  then obtain r1 r2 r3 r4 where
    "(d, r1) \<in> set (match_d s)" "r2 \<in> set (match_dot r1)" "(m, r3) \<in> set (match_m r2)"
    "r4 \<in> set (match_dot r3)" "(y, rest) \<in> set (match_Y r4)"
    by auto
  from match_d_sound[OF this(1)] match_dot_sound[OF this(2)] match_m_sound[OF this(3)]
    match_dot_sound[OF this(4)] match_Y_sound[OF this(5)]
  show ?thesis by simp
qed

lemma two_chars: "length xs = 2 \<Longrightarrow> xs = [xs ! 0, xs ! 1]"
  by (cases xs; cases "tl xs") auto

lemma four_chars: "length xs = 4 \<Longrightarrow> xs = [xs ! 0, xs ! 1, xs ! 2, xs ! 3]"
  by (auto simp: eval_nat_numeral length_Suc_conv)

lemma re_match_full:
  assumes "re_match_dmY s = Some (d, m, y, [])" "length s = 10"
  shows "accepted_text s"
proof -
  from re_match_sound[OF assms(1)] have
    s: "s = d @ code_point (CHR ''.'') # m @ code_point (CHR ''.'') # y" and
    d: "length d = 1 \<or> (length d = 2 \<and> day_text (d ! 0) (d ! 1))" and
    m: "length m = 1 \<or> (length m = 2 \<and> month_text (m ! 0) (m ! 1))" and
    y: "length y = 4" "re_digit (y ! 0)" "re_digit (y ! 1)" "re_digit (y ! 2)" "re_digit (y ! 3)"
    by simp_all
  have "length s = length d + length m + 6" using y(1) by (subst s) simp
  with assms(2) d m have ld: "length d = 2" and lm: "length m = 2" by linarith+
  from ld d have dt: "day_text (d ! 0) (d ! 1)" by simp
  from lm m have mt: "month_text (m ! 0) (m ! 1)" by simp
  have "s = [d ! 0, d ! 1] @ code_point (CHR ''.'') # [m ! 0, m ! 1] @ code_point (CHR ''.'')
              # [y ! 0, y ! 1, y ! 2, y ! 3]"
    using s two_chars[OF ld] two_chars[OF lm] four_chars[OF y(1)] by metis
  then have "s = [d ! 0, d ! 1, code_point (CHR ''.''), m ! 0, m ! 1, code_point (CHR ''.''),
                  y ! 0, y ! 1, y ! 2, y ! 3]"
    by simp
  then show ?thesis using dt mt y by (simp add: accepted_text_10)
qed

lemma ten_chars:
  assumes "length s = 10"
  shows "s = [s ! 0, s ! 1, s ! 2, s ! 3, s ! 4, s ! 5, s ! 6, s ! 7, s ! 8, s ! 9]"
  using assms by (auto simp: eval_nat_numeral length_Suc_conv)

lemma strptime_accepted:
  assumes "accepted_text s"
  shows "strptime_dmY s = make_date (text_year s) (text_month s) (text_day s)"
proof -
  have l: "length s = 10" using assms by (simp add: accepted_text_def)
  obtain c0 c1 c2 c3 c4 c5 c6 c7 c8 c9 where s: "s = [c0, c1, c2, c3, c4, c5, c6, c7, c8, c9]"
    using ten_chars[OF l] by blast
  show ?thesis using assms unfolding s
    by (simp add: strptime_dmY_def re_match_10_accepted text_year_def text_month_def text_day_def)
qed

lemma strptime_rejected:
  assumes "\<not> accepted_text s" "length s = 10"
  shows "\<exists>msg. strptime_dmY s = Inl (ValueError msg)"
proof (cases "re_match_dmY s")
  case None
  then show ?thesis by (simp add: strptime_dmY_def)
next
  case (Some x)
  obtain d m y rest where x: "x = (d, m, y, rest)" by (cases x) auto
  have "rest \<noteq> []" using re_match_full[of s d m y] Some x assms by auto
  then show ?thesis using Some x by (simp add: strptime_dmY_def)
qed

lemma ascii_digit_decimal:
  assumes "spec_digit c"
  shows "unicode_decimal c = Some (c - 48)"
  using assms
  by (simp add: spec_digit_def cp_between_def code_point_def unicode_decimal_def DECIMAL_ZEROS_def)

lemma ascii_digit_re_digit: "spec_digit c \<Longrightarrow> re_digit c"
  by (simp add: re_digit_def ascii_digit_decimal)

lemma int_of_str_2:
  assumes "spec_digit a" "spec_digit b"
  shows "int_of_str [a, b] = 10 * (int a - 48) + (int b - 48)"
proof -
  have r: "48 \<le> a" "48 \<le> b" using assms by (simp_all add: spec_digit_def cp_between_def code_point_def)
  then have "a \<noteq> code_point (CHR '' '')" by (simp add: code_point_def)
  then show ?thesis using r
    by (simp add: int_of_str_def digit_val_def ascii_digit_decimal[OF assms(1)]
        ascii_digit_decimal[OF assms(2)] of_nat_diff)
qed

lemma day_text_digits:
  assumes "spec_digit a" "spec_digit b" "1 \<le> int_of_str [a, b]" "int_of_str [a, b] \<le> 31"
  shows "day_text a b"
proof -
  have r: "48 \<le> a" "a \<le> 57" "48 \<le> b" "b \<le> 57"
    using assms(1,2) by (simp_all add: spec_digit_def cp_between_def code_point_def)
  have v: "1 \<le> 10 * (int a - 48) + (int b - 48)" "10 * (int a - 48) + (int b - 48) \<le> 31"
    using assms(3,4) int_of_str_2[OF assms(1,2)] by simp_all
  have d: "re_digit b" using assms(2) by (rule ascii_digit_re_digit)
  have e: "a = 48 \<or> a = 49 \<or> a = 50 \<or> a = 51 \<or> 52 \<le> a" using r by linarith
  from e r v have "(a = 51 \<and> 48 \<le> b \<and> b \<le> 49) \<or> (49 \<le> a \<and> a \<le> 50) \<or> (a = 48 \<and> 49 \<le> b \<and> b \<le> 57)"
    by (elim disjE) simp_all
  then show ?thesis using d by (auto simp: day_text_def cp_between_def code_point_def)
qed

lemma month_text_digits:
  assumes "spec_digit a" "spec_digit b" "1 \<le> int_of_str [a, b]" "int_of_str [a, b] \<le> 12"
  shows "month_text a b"
proof -
  have r: "48 \<le> a" "a \<le> 57" "48 \<le> b" "b \<le> 57"
    using assms(1,2) by (simp_all add: spec_digit_def cp_between_def code_point_def)
  have v: "1 \<le> 10 * (int a - 48) + (int b - 48)" "10 * (int a - 48) + (int b - 48) \<le> 12"
    using assms(3,4) int_of_str_2[OF assms(1,2)] by simp_all
  have e: "a = 48 \<or> a = 49 \<or> 50 \<le> a" using r by linarith
  from e r v have "(a = 49 \<and> 48 \<le> b \<and> b \<le> 50) \<or> (a = 48 \<and> 49 \<le> b \<and> b \<le> 57)"
    by (elim disjE) simp_all
  then show ?thesis by (auto simp: month_text_def cp_between_def code_point_def)
qed

lemma make_date_valid:
  "valid_date \<lparr>year = y, month = m, day = d\<rparr> \<Longrightarrow>
     make_date y m d = Inr \<lparr>year = y, month = m, day = d\<rparr>"
  by (simp add: make_date_def valid_date_def)

lemma make_date_invalid:
  "\<not> valid_date \<lparr>year = y, month = m, day = d\<rparr> \<Longrightarrow> \<exists>msg. make_date y m d = Inl (ValueError msg)"
  by (auto simp: make_date_def valid_date_def)

lemma spec_DDMMYYYY_10:
  "spec_DDMMYYYY [c0, c1, c2, c3, c4, c5, c6, c7, c8, c9] \<longleftrightarrow>
     spec_digit c0 \<and> spec_digit c1 \<and> c2 = code_point (CHR ''.'') \<and>
     spec_digit c3 \<and> spec_digit c4 \<and> c5 = code_point (CHR ''.'') \<and>
     spec_digit c6 \<and> spec_digit c7 \<and> spec_digit c8 \<and> spec_digit c9"
  by (simp add: spec_DDMMYYYY_def)

lemma spec_text_accepted:
  assumes "spec_DDMMYYYY s"
    "valid_date \<lparr>year = text_year s, month = text_month s, day = text_day s\<rparr>"
  shows "accepted_text s"
proof -
  have l: "length s = 10" using assms(1) by (simp add: spec_DDMMYYYY_def)
  obtain c0 c1 c2 c3 c4 c5 c6 c7 c8 c9 where s: "s = [c0, c1, c2, c3, c4, c5, c6, c7, c8, c9]"
    using ten_chars[OF l] by blast
  have td: "text_day s = int_of_str [c0, c1]" and tm: "text_month s = int_of_str [c3, c4]"
    by (simp_all add: s text_day_def text_month_def)
  have v: "1 \<le> text_day s" "text_day s \<le> 31" "1 \<le> text_month s" "text_month s \<le> 12"
    using assms(2) dim_bounds[of "text_year s" "text_month s"] by (simp_all add: valid_date_def)
  from assms(1) have d: "spec_digit c0" "spec_digit c1" "spec_digit c3" "spec_digit c4"
    "spec_digit c6" "spec_digit c7" "spec_digit c8" "spec_digit c9"
    "c2 = code_point (CHR ''.'')" "c5 = code_point (CHR ''.'')"
    by (simp_all add: s spec_DDMMYYYY_10)
  have "day_text c0 c1" using day_text_digits[OF d(1,2)] v td by simp
  moreover have "month_text c3 c4" using month_text_digits[OF d(3,4)] v tm by simp
  ultimately show ?thesis using d ascii_digit_re_digit by (simp add: s accepted_text_10)
qed

text \<open>
  C4 (as amended).  For every string \<open>s\<close>, \<open>Birthday s\<close> succeeds if and only if \<open>s\<close> has
  length exactly 10, is a text that the parser takes for DD.MM.YYYY, and denotes a real
  calendar date (of a year from 1 to 9999).  The parser takes the day as 3 and then 0 or
  1, or 1 or 2 and then any decimal digit of Unicode, or 0 and then one of 1..9, or a
  blank and then one of 1..9; the month as 1 and then one of 0..2, or 0 and then one of
  1..9; the year as four decimal digits of Unicode; with a dot after the day and after
  the month.  Every real date written as two, two and four of the digits 0..9 with the
  two dots is such a text.  On success the stored date has the parsed day, month and
  year, and otherwise (wrong length, a text that is not numeric, or an impossible date)
  construction fails with the \<open>ValueError\<close> of the class.
\<close>

theorem Birthday_accepts:
  "Birthday s =
     (if accepted_text s \<and>
         valid_date \<lparr>year = text_year s, month = text_month s, day = text_day s\<rparr>
      then Inr (Field \<lparr>year = text_year s, month = text_month s, day = text_day s\<rparr>)
      else Inl (ValueError ''Invalid date format. Use DD.MM.YYYY'')) \<and>
   (spec_DDMMYYYY s \<and>
      valid_date \<lparr>year = text_year s, month = text_month s, day = text_day s\<rparr>
    \<longrightarrow> accepted_text s)"
proof -
  let ?D = "\<lparr>year = text_year s, month = text_month s, day = text_day s\<rparr>"
  have 1: "Birthday s =
     (if accepted_text s \<and> valid_date ?D then Inr (Field ?D)
      else Inl (ValueError ''Invalid date format. Use DD.MM.YYYY''))"
  proof (cases "length s = 10")
    case False
    then have "\<not> accepted_text s" by (simp add: accepted_text_def)
    then show ?thesis using False by (simp add: Birthday_def)
  next
    case True
    show ?thesis
    proof (cases "accepted_text s \<and> valid_date ?D")
      case T: True
      then have "strptime_dmY s = Inr ?D" by (simp add: strptime_accepted make_date_valid)
      then show ?thesis using T True by (simp add: Birthday_def)
    next
      case F: False
      have "\<exists>msg. strptime_dmY s = Inl (ValueError msg)"
      proof (cases "accepted_text s")
        case True
        then show ?thesis using F make_date_invalid by (simp add: strptime_accepted)
      next
        case False
        then show ?thesis using strptime_rejected True by blast
      qed
      then obtain msg where "strptime_dmY s = Inl (ValueError msg)" by blast
      then show ?thesis using F True by (simp add: Birthday_def)
    qed
  qed
  have 2: "spec_DDMMYYYY s \<and> valid_date ?D \<longrightarrow> accepted_text s"
    using spec_text_accepted by blast
  from 1 2 show ?thesis by blast
qed

text \<open>
  The texts \<open>15.06.1990\<close>, the same date with the Arabic-Indic digits U+0665, U+0661,
  U+0669 and U+0660 in the second place of the day and in the year, a day that starts
  with the Arabic-Indic zero, 31 February, a short text and a text with dashes.
\<close>

theorem Birthday_accepts_witness:
  "Birthday (map code_point ''15.06.1990'') = Inr (Field \<lparr>year = 1990, month = 6, day = 15\<rparr>) \<and>
   spec_DDMMYYYY (map code_point ''15.06.1990'') \<and>
   accepted_text (map code_point ''15.06.1990'') \<and>
   Birthday [49, 0x665, 46, 48, 54, 46, 0x661, 0x669, 0x669, 0x660]
     = Inr (Field \<lparr>year = 1990, month = 6, day = 15\<rparr>) \<and>
   Birthday [0x660, 53, 46, 48, 54, 46, 49, 57, 57, 48]
     = Inl (ValueError ''Invalid date format. Use DD.MM.YYYY'') \<and>
   Birthday (map code_point ''31.02.2020'') = Inl (ValueError ''Invalid date format. Use DD.MM.YYYY'') \<and>
   Birthday (map code_point ''1.1.2020'') = Inl (ValueError ''Invalid date format. Use DD.MM.YYYY'') \<and>
   Birthday (map code_point ''15-06-1990'') = Inl (ValueError ''Invalid date format. Use DD.MM.YYYY'')"
  using Birthday_accepts[of "map code_point ''15.06.1990''"]
    Birthday_accepts[of "[49, 0x665, 46, 48, 54, 46, 0x661, 0x669, 0x669, 0x660]"]
    Birthday_accepts[of "[0x660, 53, 46, 48, 54, 46, 49, 57, 57, 48]"]
    Birthday_accepts[of "map code_point ''31.02.2020''"]
    Birthday_accepts[of "map code_point ''1.1.2020''"]
    Birthday_accepts[of "map code_point ''15-06-1990''"]
  by (simp add: spec_DDMMYYYY_def spec_digit_def accepted_text_def day_text_def month_text_def
      cp_between_def code_point_def re_digit_def unicode_decimal_def DECIMAL_ZEROS_def
      text_year_def text_month_def text_day_def int_of_str_def digit_val_def valid_date_def
      MINYEAR_def MAXYEAR_def days_in_month_def is_leap_def)

text \<open>
  A day written with a blank and one digit is accepted, though the text is not of the
  form DD.MM.YYYY: a blank is no digit.
\<close>

theorem Birthday_blank_padded_day:
  "Birthday (map code_point '' 5.06.1990'') = Inr (Field \<lparr>year = 1990, month = 6, day = 5\<rparr>) \<and>
   \<not> spec_DDMMYYYY (map code_point '' 5.06.1990'') \<and>
   \<not> re_digit (code_point (CHR '' ''))"
proof -
  have s: "map code_point '' 5.06.1990'' = [32, 53, 46, 48, 54, 46, 49, 57, 57, 48]"
    by (simp add: code_point_def)
  have a: "accepted_text [32, 53, 46, 48, 54, 46, 49, 57, 57, 48]"
    by (simp add: accepted_text_def day_text_def month_text_def re_digit_def cp_between_def
        code_point_def unicode_decimal_def DECIMAL_ZEROS_def)
  have "strptime_dmY [32, 53, 46, 48, 54, 46, 49, 57, 57, 48]
          = make_date (text_year [32, 53, 46, 48, 54, 46, 49, 57, 57, 48])
              (text_month [32, 53, 46, 48, 54, 46, 49, 57, 57, 48])
              (text_day [32, 53, 46, 48, 54, 46, 49, 57, 57, 48])"
    using a by (rule strptime_accepted)
  also have "\<dots> = Inr \<lparr>year = 1990, month = 6, day = 5\<rparr>"
    by (simp add: text_year_def text_month_def text_day_def
        int_of_str_def digit_val_def code_point_def unicode_decimal_def DECIMAL_ZEROS_def
        make_date_def MINYEAR_def MAXYEAR_def days_in_month_def)
  finally show ?thesis unfolding s
    by (simp add: Birthday_def spec_DDMMYYYY_def spec_digit_def cp_between_def code_point_def
        re_digit_def unicode_decimal_def DECIMAL_ZEROS_def)
qed

end
